theory Spec2Isabelle
  imports Main "HOL-Library.Sublist" "HOL-Library.Multiset"
begin

section \<open>Text of the generation backend and its clean-up\<close>

text \<open>
  A JavaScript string is modelled as a \<^typ>\<open>string\<close>: every \<^typ>\<open>char\<close> stands for the
  UTF-16 code unit of the same number (U+0000 to U+00FF).

  \<^verbatim>\<open>quizText.replace(/```json\n?/g, '')\<close> and \<^verbatim>\<open>.replace(/```\n?/g, '')\<close> in
  \<^verbatim>\<open>getQuiz\<close> are global replacements by the empty string of a literal followed by an
  optional line feed. A global replace scans from the left; at each position the pattern
  either matches (greedily, so a following line feed belongs to the match) and the scan
  resumes behind the match, or the character is kept and the scan moves on by one.
\<close>

definition line_feed :: char where
  "line_feed = CHR 0x0A"

fun drop_line_feed :: "string \<Rightarrow> string" where
  "drop_line_feed [] = []"
| "drop_line_feed (c # cs) = (if c = line_feed then cs else c # cs)"

function replace_fence :: "string \<Rightarrow> string \<Rightarrow> string" where
  "replace_fence lit s =
     (if s = [] then []
      else if lit \<noteq> [] \<and> prefix lit s
           then replace_fence lit (drop_line_feed (drop (length lit) s))
           else hd s # replace_fence lit (tl s))"
  by pat_completeness auto

lemma length_drop_line_feed: "length (drop_line_feed s) \<le> length s"
  by (cases s) auto

termination replace_fence
proof (relation "measure (\<lambda>(lit, s). length s)")
  show "wf (measure (\<lambda>(lit, s). length s))" by simp
next
  fix lit s :: string
  assume "s \<noteq> []" "lit \<noteq> [] \<and> prefix lit s"
  then have "length (drop (length lit) s) < length s" by simp
  moreover have "length (drop_line_feed (drop (length lit) s)) \<le> length (drop (length lit) s)"
    by (rule length_drop_line_feed)
  ultimately show "((lit, drop_line_feed (drop (length lit) s)), (lit, s))
      \<in> measure (\<lambda>(lit, s). length s)"
    by simp
next
  fix lit s :: string
  assume "s \<noteq> []"
  then show "((lit, tl s), (lit, s)) \<in> measure (\<lambda>(lit, s). length s)"
    by (cases s) auto
qed

text \<open>
  \<^verbatim>\<open>String.prototype.trim\<close> removes white space and line terminators from both ends;
  among the code units below 256 these are TAB, LF, VT, FF, CR, SPACE and NBSP.
\<close>

definition is_js_space :: "char \<Rightarrow> bool" where
  "is_js_space c \<longleftrightarrow>
     c \<in> {CHR 0x09, CHR 0x0A, CHR 0x0B, CHR 0x0C, CHR 0x0D, CHR 0x20, CHR 0xA0}"

definition trim :: "string \<Rightarrow> string" where
  "trim s = rev (dropWhile is_js_space (rev (dropWhile is_js_space s)))"

definition fence :: string where
  "fence = ''```''"

definition json_fence :: string where
  "json_fence = ''```json''"

text \<open>The two replacements alone, and the whole clean-up line of \<^verbatim>\<open>getQuiz\<close>.\<close>

definition strip_fences :: "string \<Rightarrow> string" where
  "strip_fences s = replace_fence fence (replace_fence json_fence s)"

definition cleanQuizText :: "string \<Rightarrow> string" where
  "cleanQuizText quizText = trim (replace_fence fence (replace_fence json_fence quizText))"

section \<open>The JSON decoder\<close>

text \<open>
  \<^verbatim>\<open>JSON.parse\<close> is a built-in of the language, not code of the repository. It is
  modelled by a recursive-descent parser for the JSON grammar of ECMA-404: white space is
  SPACE, TAB, LF and CR; a value is an array, an object, a string, a number or one of the
  three literals; nothing but white space may follow the value. A number keeps its source
  text (JavaScript converts it to the nearest double); a string is decoded to its UTF-16
  code units, so that its \<^verbatim>\<open>length\<close> is the length of the list; an object keeps its
  members in source order, a repeated key included (JavaScript keeps the last value).
  \<^term>\<open>None\<close> is the \<^verbatim>\<open>SyntaxError\<close> that \<^verbatim>\<open>JSON.parse\<close> throws.
\<close>

datatype json =
    JNull
  | JBool bool
  | JNum string
  | JStr "nat list"
  | JArr "json list"
  | JObj "(nat list \<times> json) list"

definition is_json_ws :: "char \<Rightarrow> bool" where
  "is_json_ws c \<longleftrightarrow> c \<in> {CHR 0x20, CHR 0x09, CHR 0x0A, CHR 0x0D}"

definition skip_ws :: "string \<Rightarrow> string" where
  "skip_ws = dropWhile is_json_ws"

definition is_digit :: "char \<Rightarrow> bool" where
  "is_digit c \<longleftrightarrow> 48 \<le> (of_char c :: nat) \<and> (of_char c :: nat) \<le> 57"

definition hex_val :: "char \<Rightarrow> nat option" where
  "hex_val c =
     (let n = (of_char c :: nat) in
      if 48 \<le> n \<and> n \<le> 57 then Some (n - 48)
      else if 65 \<le> n \<and> n \<le> 70 then Some (n - 55)
      else if 97 \<le> n \<and> n \<le> 102 then Some (n - 87)
      else None)"

definition dquote :: char where
  "dquote = CHR 0x22"

definition backslash :: char where
  "backslash = CHR 0x5C"

definition escape_unit :: "char \<Rightarrow> nat option" where
  "escape_unit e =
     (if e = dquote then Some 34
      else if e = backslash then Some 92
      else if e = CHR ''/'' then Some 47
      else if e = CHR ''b'' then Some 8
      else if e = CHR ''f'' then Some 12
      else if e = CHR ''n'' then Some 10
      else if e = CHR ''r'' then Some 13
      else if e = CHR ''t'' then Some 9
      else None)"

definition unit_cons :: "nat \<Rightarrow> (nat list \<times> string) option \<Rightarrow> (nat list \<times> string) option" where
  "unit_cons u = map_option (apfst ((#) u))"

fun string_chars :: "string \<Rightarrow> (nat list \<times> string) option" where
  "string_chars [] = None"
| "string_chars (c # cs) =
     (if c = dquote then Some ([], cs)
      else if c = backslash then
        (case cs of
           [] \<Rightarrow> None
         | e # r \<Rightarrow>
             if e = CHR ''u'' then
               (case r of
                  h1 # h2 # h3 # h4 # r' \<Rightarrow>
                    (case (hex_val h1, hex_val h2, hex_val h3, hex_val h4) of
                       (Some a, Some b, Some c', Some d) \<Rightarrow>
                         unit_cons (((a * 16 + b) * 16 + c') * 16 + d) (string_chars r')
                     | _ \<Rightarrow> None)
                | _ \<Rightarrow> None)
             else
               (case escape_unit e of
                  None \<Rightarrow> None
                | Some u \<Rightarrow> unit_cons u (string_chars r)))
      else if (of_char c :: nat) < 32 then None
      else unit_cons (of_char c) (string_chars cs))"

definition digits1 :: "string \<Rightarrow> (string \<times> string) option" where
  "digits1 s =
     (let ds = takeWhile is_digit s in
      if ds = [] then None else Some (ds, dropWhile is_digit s))"

definition int_part :: "string \<Rightarrow> (string \<times> string) option" where
  "int_part s =
     (case s of
        [] \<Rightarrow> None
      | d # r \<Rightarrow> if d = CHR ''0'' then Some ([d], r) else digits1 s)"

definition frac_part :: "string \<Rightarrow> (string \<times> string) option" where
  "frac_part s =
     (case s of
        [] \<Rightarrow> Some ([], s)
      | d # r \<Rightarrow>
          if d = CHR ''.'' then map_option (apfst ((#) d)) (digits1 r) else Some ([], s))"

definition exp_part :: "string \<Rightarrow> (string \<times> string) option" where
  "exp_part s =
     (case s of
        [] \<Rightarrow> Some ([], s)
      | e # r \<Rightarrow>
          if e = CHR ''e'' \<or> e = CHR ''E'' then
            (case r of
               [] \<Rightarrow> None
             | g # r' \<Rightarrow>
                 if g = CHR ''+'' \<or> g = CHR ''-''
                 then map_option (apfst (\<lambda>ds. e # g # ds)) (digits1 r')
                 else map_option (apfst ((#) e)) (digits1 r))
          else Some ([], s))"

definition number_token :: "string \<Rightarrow> (string \<times> string) option" where
  "number_token s =
     (let (sign, s1) = (case s of
                          [] \<Rightarrow> ([], s)
                        | m # r \<Rightarrow> if m = CHR ''-'' then ([m], r) else ([], s))
      in case int_part s1 of
           None \<Rightarrow> None
         | Some (ip, s2) \<Rightarrow>
             (case frac_part s2 of
                None \<Rightarrow> None
              | Some (fp, s3) \<Rightarrow>
                  (case exp_part s3 of
                     None \<Rightarrow> None
                   | Some (ep, s4) \<Rightarrow> Some (sign @ ip @ fp @ ep, s4))))"

lemma length_skip_ws: "length (skip_ws s) \<le> length s"
  by (simp add: skip_ws_def length_dropWhile_le)

lemma string_chars_shorter: "string_chars s = Some (k, r) \<Longrightarrow> length r < length s"
proof (induction s arbitrary: k r rule: string_chars.induct)
  case 1
  then show ?case by simp
next
  case (2 c cs)
  then show ?case
    by (fastforce simp: unit_cons_def split: if_splits list.splits option.splits)
qed

function parse_value :: "string \<Rightarrow> (json \<times> string) option"
  and parse_elements :: "string \<Rightarrow> (json list \<times> string) option"
  and parse_members :: "string \<Rightarrow> ((nat list \<times> json) list \<times> string) option"
where
  "parse_value s =
     (case s of
        [] \<Rightarrow> None
      | c # r \<Rightarrow>
          if c = CHR ''['' then
            (case skip_ws r of
               [] \<Rightarrow> None
             | d # r' \<Rightarrow>
                 if d = CHR '']'' then Some (JArr [], r')
                 else map_option (apfst JArr) (parse_elements (d # r')))
          else if c = CHR ''{'' then
            (case skip_ws r of
               [] \<Rightarrow> None
             | d # r' \<Rightarrow>
                 if d = CHR ''}'' then Some (JObj [], r')
                 else map_option (apfst JObj) (parse_members (d # r')))
          else if c = dquote then map_option (apfst JStr) (string_chars r)
          else if prefix ''true'' s then Some (JBool True, drop 4 s)
          else if prefix ''false'' s then Some (JBool False, drop 5 s)
          else if prefix ''null'' s then Some (JNull, drop 4 s)
          else map_option (apfst JNum) (number_token s))"
| "parse_elements s =
     (case parse_value (skip_ws s) of
        None \<Rightarrow> None
      | Some (v, r) \<Rightarrow>
          if length r < length s then
            (case skip_ws r of
               [] \<Rightarrow> None
             | d # r' \<Rightarrow>
                 if d = CHR '','' then map_option (apfst ((#) v)) (parse_elements r')
                 else if d = CHR '']'' then Some ([v], r')
                 else None)
          else None)"
| "parse_members s =
     (case skip_ws s of
        [] \<Rightarrow> None
      | q # r0 \<Rightarrow>
          if q \<noteq> dquote then None
          else
            (case string_chars r0 of
               None \<Rightarrow> None
             | Some (k, r1) \<Rightarrow>
                 (case skip_ws r1 of
                    [] \<Rightarrow> None
                  | col # r2 \<Rightarrow>
                      if col \<noteq> CHR '':'' then None
                      else
                        (case parse_value (skip_ws r2) of
                           None \<Rightarrow> None
                         | Some (v, r3) \<Rightarrow>
                             if length r3 < length s then
                               (case skip_ws r3 of
                                  [] \<Rightarrow> None
                                | d # r4 \<Rightarrow>
                                    if d = CHR '','' then
                                      map_option (apfst ((#) (k, v))) (parse_members r4)
                                    else if d = CHR ''}'' then Some ([(k, v)], r4)
                                    else None)
                             else None))))"
  by pat_completeness auto

termination
proof (relation "measure (\<lambda>x. case x of
          Inl s \<Rightarrow> 2 * length s
        | Inr (Inl s) \<Rightarrow> 2 * length s + 1
        | Inr (Inr s) \<Rightarrow> 2 * length s + 1)", goal_cases)
  case 1
  show ?case by simp
next
  case (2 s c r d r')
  have "length (skip_ws r) \<le> length r" by (rule length_skip_ws)
  with 2 show ?case by simp
next
  case (3 s c r d r')
  have "length (skip_ws r) \<le> length r" by (rule length_skip_ws)
  with 3 show ?case by simp
next
  case (4 s)
  have "length (skip_ws s) \<le> length s" by (rule length_skip_ws)
  then show ?case by simp
next
  case (5 s x v r d r')
  have "length (skip_ws r) \<le> length r" by (rule length_skip_ws)
  with 5 show ?case by simp
next
  case (6 s q r0 x k r1 col r2)
  have "length (skip_ws s) \<le> length s" "length (skip_ws r1) \<le> length r1"
       "length (skip_ws r2) \<le> length r2"
    by (rule length_skip_ws)+
  moreover have "length r1 < length r0" using 6 by (auto dest: string_chars_shorter)
  ultimately show ?case using 6 by simp
next
  case (7 s q r0 x k r1 col r2 y v r3 d r4)
  have "length (skip_ws r3) \<le> length r3" by (rule length_skip_ws)
  with 7 show ?case by simp
qed

definition JSON_parse :: "string \<Rightarrow> json option" where
  "JSON_parse text =
     (case parse_value (skip_ws text) of
        None \<Rightarrow> None
      | Some (v, r) \<Rightarrow> if skip_ws r = [] then Some v else None)"

text \<open>
  Two relations between a parser's input and the rest it returns, for stating what the
  parser has read: it has read something, and what it has read ends with a given bracket.
\<close>

definition consumed :: "string \<Rightarrow> string \<Rightarrow> bool" where
  "consumed s r \<longleftrightarrow> (\<exists>c. s = c @ r \<and> c \<noteq> [])"

definition closed_by :: "char \<Rightarrow> string \<Rightarrow> string \<Rightarrow> bool" where
  "closed_by b s r \<longleftrightarrow> (\<exists>m. s = m @ b # r)"

text \<open>
  Two rests of an input begin alike: both are non-empty and have the same first character.
\<close>

definition same_next :: "string \<Rightarrow> string \<Rightarrow> bool" where
  "same_next u u' \<longleftrightarrow> u \<noteq> [] \<and> u' \<noteq> [] \<and> hd u' = hd u"

text \<open>
  What the two fence markers of \<^verbatim>\<open>getQuiz\<close> have in common: a marker begins with a
  backtick and has no quote, no backslash and no control character.
\<close>

definition fence_literal :: "string \<Rightarrow> bool" where
  "fence_literal lit \<longleftrightarrow>
     lit \<noteq> [] \<and> hd lit = CHR ''`''
     \<and> list_all (\<lambda>c. c \<noteq> dquote \<and> c \<noteq> backslash \<and> \<not> (of_char c :: nat) < 32) lit"

text \<open>The two statements of \<^verbatim>\<open>getQuiz\<close> that turn the backend's text into the quiz.\<close>

definition parseQuiz :: "string \<Rightarrow> json option" where
  "parseQuiz quizText = JSON_parse (cleanQuizText quizText)"

section \<open>Documents, users and the state of the server\<close>

text \<open>
  A stored \<^verbatim>\<open>File\<close> document has the fields that \<^verbatim>\<open>uploadFile\<close> passes to
  \<^verbatim>\<open>File.create\<close>, the identifier given by the database and the creation time that
  \<^verbatim>\<open>getAllFiles\<close> sorts by. A user document is any list of named fields with an
  \<^verbatim>\<open>_id\<close>, so nothing is assumed about the user schema.
\<close>

record file_doc =
  doc_id :: string
  title :: string
  description :: string
  subject :: string
  fileUrl :: string
  fileType :: string
  publicId :: string
  createdBy :: string
  createdAt :: nat

type_synonym user_doc = "(string \<times> string) list"

record populated_file =
  doc :: file_doc
  creator :: "user_doc option"

text \<open>
  The state that the handlers read and change: the paths that exist on the local disk, the
  objects in remote storage (storage identifier and URL), the \<^verbatim>\<open>File\<close> collection in
  insertion order, the users, and the lines written with \<^verbatim>\<open>console.error\<close> (label and
  error message).
\<close>

record server =
  disk :: "string set"
  cloud :: "(string \<times> string) list"
  files :: "file_doc list"
  users :: "user_doc list"
  console :: "(string \<times> string) list"

text \<open>
  What the collaborators answer during one request: the storage upload (an error message, or
  \<^verbatim>\<open>secure_url\<close> and \<^verbatim>\<open>public_id\<close>), \<^verbatim>\<open>File.create\<close> (an error message, or the new
  identifier and creation time), \<^verbatim>\<open>populate\<close> and the read queries (an error message
  when they reject), the generation backend as a function of the prompt, and the clock.
\<close>

record outcomes =
  upload_outcome :: "string + (string \<times> string)"
  create_outcome :: "string + (string \<times> nat)"
  populate_error :: "string option"
  find_error :: "string option"
  generateContent :: "string \<Rightarrow> string + string"
  now :: nat

datatype js_prop = Undefined | NumberValue nat | JsonValue json

record summary_data =
  s_fileId :: string
  s_title :: string
  s_subject :: string
  summary :: string
  s_generatedAt :: nat

record quiz_data =
  q_fileId :: string
  q_title :: string
  q_subject :: string
  quiz :: json
  totalQuestions :: js_prop
  q_generatedAt :: nat

datatype payload =
    NoData
  | FileData populated_file
  | FileList nat "populated_file list"
  | SummaryData summary_data
  | QuizData quiz_data

record response =
  status :: nat
  success :: bool
  message :: "string option"
  data :: payload

definition failure :: "nat \<Rightarrow> string \<Rightarrow> response" where
  "failure code msg = \<lparr>status = code, success = False, message = Some msg, data = NoData\<rparr>"

subsection \<open>Database reads: \<^verbatim>\<open>findById\<close>, \<^verbatim>\<open>populate\<close>, \<^verbatim>\<open>sort\<close>\<close>

definition findById :: "file_doc list \<Rightarrow> string \<Rightarrow> file_doc option" where
  "findById fs i = find (\<lambda>d. doc_id d = i) fs"

fun split_on :: "char \<Rightarrow> string \<Rightarrow> string list" where
  "split_on sep [] = [[]]"
| "split_on sep (c # cs) =
     (if c = sep then [] # split_on sep cs
      else (case split_on sep cs of
              [] \<Rightarrow> [[c]]
            | p # ps \<Rightarrow> (c # p) # ps))"

text \<open>
  \<^verbatim>\<open>populate('createdBy', select)\<close> replaces the reference by the user with that
  \<^verbatim>\<open>_id\<close>, projected to the selected fields and the \<^verbatim>\<open>_id\<close>, or by null when there
  is no such user.
\<close>

definition project :: "string \<Rightarrow> user_doc \<Rightarrow> user_doc" where
  "project select u = filter (\<lambda>(k, v). k \<in> set (''_id'' # split_on (CHR '' '') select)) u"

definition populate :: "string \<Rightarrow> user_doc list \<Rightarrow> file_doc \<Rightarrow> populated_file" where
  "populate select us d =
     \<lparr>doc = d,
      creator = map_option (project select)
                  (find (\<lambda>u. map_of u ''_id'' = Some (createdBy d)) us)\<rparr>"

text \<open>\<^verbatim>\<open>sort({ createdAt: -1 })\<close>: descending creation time.\<close>

definition sort_newest_first :: "populated_file list \<Rightarrow> populated_file list" where
  "sort_newest_first = sort_key (\<lambda>p. - int (createdAt (doc p)))"

section \<open>\<^verbatim>\<open>uploadFile\<close>\<close>

record uploaded_file =
  originalname :: string
  path :: string

text \<open>
  The request as \<^verbatim>\<open>uploadFile\<close> sees it: the text fields of the body (absent or a
  string), the file that the upload middleware has staged (absent or a name and a local
  path), and the identifier of the authenticated user.
\<close>

record upload_request =
  body_title :: "string option"
  body_description :: "string option"
  body_subject :: "string option"
  req_file :: "uploaded_file option"
  req_user :: string

text \<open>\<^verbatim>\<open>!v\<close> for a value that is undefined or a string.\<close>

definition falsy :: "string option \<Rightarrow> bool" where
  "falsy v \<longleftrightarrow> v = None \<or> v = Some []"

text \<open>\<^verbatim>\<open>v || d\<close> for a value that is undefined or a string.\<close>

definition or_else :: "string option \<Rightarrow> string \<Rightarrow> string" where
  "or_else v d = (case v of None \<Rightarrow> d | Some s \<Rightarrow> if s = [] then d else s)"

text \<open>\<^verbatim>\<open>Array.prototype.pop\<close>: the last element, undefined for an empty array.\<close>

fun pop :: "'a list \<Rightarrow> 'a option" where
  "pop [] = None"
| "pop [x] = Some x"
| "pop (x # y # ys) = pop (y # ys)"

text \<open>
  \<^verbatim>\<open>toLowerCase\<close> on code units below 256: the letters A to Z and the capital letters of
  Latin-1 (U+00C0 to U+00DE without the multiplication sign) move up by 32.
\<close>

definition lower_char :: "char \<Rightarrow> char" where
  "lower_char c =
     (let n = (of_char c :: nat) in
      if (65 \<le> n \<and> n \<le> 90) \<or> (192 \<le> n \<and> n \<le> 222 \<and> n \<noteq> 215)
      then char_of (n + 32) else c)"

definition toLowerCase :: "string \<Rightarrow> string" where
  "toLowerCase = map lower_char"

definition allowedTypes :: "string list" where
  "allowedTypes = [''pdf'', ''docx'', ''ppt'', ''pptx'']"

definition enoent :: "string \<Rightarrow> string" where
  "enoent p = ''ENOENT: no such file or directory, unlink '' @ [CHR 0x27] @ p @ [CHR 0x27]"

text \<open>\<^verbatim>\<open>fs.unlinkSync\<close> removes the path, and throws when there is no such file.\<close>

definition unlinkSync :: "string \<Rightarrow> server \<Rightarrow> (string + unit) \<times> server" where
  "unlinkSync p st =
     (if p \<in> disk st then (Inr (), st\<lparr>disk := disk st - {p}\<rparr>) else (Inl (enoent p), st))"

definition existsSync :: "string \<Rightarrow> server \<Rightarrow> bool" where
  "existsSync p st \<longleftrightarrow> p \<in> disk st"

definition console_error :: "string \<Rightarrow> string \<Rightarrow> server \<Rightarrow> server" where
  "console_error label err st = st\<lparr>console := console st @ [(label, err)]\<rparr>"

text \<open>
  The \<^verbatim>\<open>try\<close> block of \<^verbatim>\<open>uploadFile\<close>: \<^term>\<open>Inl\<close> is the message of the error
  thrown, \<^term>\<open>Inr\<close> the response sent; the state is the one reached at that point.
\<close>

definition uploadFile_try :: "outcomes \<Rightarrow> upload_request \<Rightarrow> server \<Rightarrow> (string + response) \<times> server" where
  "uploadFile_try env req st =
     (if falsy (body_title req) \<or> falsy (body_subject req)
      then (Inr (failure 400 ''Please provide title and subject''), st)
      else case req_file req of
        None \<Rightarrow> (Inr (failure 400 ''Please upload a file''), st)
      | Some f \<Rightarrow>
         (case pop (split_on (CHR ''.'') (originalname f)) of
            None \<Rightarrow> (Inl ''TypeError'', st)
          | Some last_part \<Rightarrow>
             (let fileExt = toLowerCase last_part in
              if fileExt \<notin> set allowedTypes then
                (case unlinkSync (path f) st of
                   (Inl e, st1) \<Rightarrow> (Inl e, st1)
                 | (Inr u, st1) \<Rightarrow>
                     (Inr (failure 400 ''Invalid file type. Only PDF, DOCX, PPT, PPTX allowed''), st1))
              else
                (case upload_outcome env of
                   Inl e \<Rightarrow> (Inl e, st)
                 | Inr (secure_url, public_id) \<Rightarrow>
                    (let st1 = st\<lparr>cloud := cloud st @ [(public_id, secure_url)]\<rparr> in
                     case unlinkSync (path f) st1 of
                       (Inl e, st2) \<Rightarrow> (Inl e, st2)
                     | (Inr u, st2) \<Rightarrow>
                        (case create_outcome env of
                           Inl e \<Rightarrow> (Inl e, st2)
                         | Inr (new_id, created) \<Rightarrow>
                            (let d = \<lparr>doc_id = new_id,
                                      title = the (body_title req),
                                      description = or_else (body_description req) [],
                                      subject = the (body_subject req),
                                      fileUrl = secure_url,
                                      fileType = (if fileExt = ''pptx'' then ''ppt'' else fileExt),
                                      publicId = public_id,
                                      createdBy = req_user req,
                                      createdAt = created\<rparr>;
                                 st3 = st2\<lparr>files := files st2 @ [d]\<rparr>
                             in case populate_error env of
                                  Some e \<Rightarrow> (Inl e, st3)
                                | None \<Rightarrow>
                                    (Inr \<lparr>status = 201, success = True,
                                          message = Some ''File uploaded successfully'',
                                          data = FileData (populate ''name email'' (users st3) d)\<rparr>,
                                     st3))))))))"

text \<open>The \<^verbatim>\<open>catch\<close> block of \<^verbatim>\<open>uploadFile\<close>.\<close>

definition uploadFile_catch :: "upload_request \<Rightarrow> string \<Rightarrow> server \<Rightarrow> response \<times> server" where
  "uploadFile_catch req err st =
     (let st1 = (case req_file req of
                   None \<Rightarrow> st
                 | Some f \<Rightarrow> if existsSync (path f) st then snd (unlinkSync (path f) st) else st)
      in (failure 500 err, console_error ''Upload error:'' err st1))"

definition uploadFile :: "outcomes \<Rightarrow> upload_request \<Rightarrow> server \<Rightarrow> response \<times> server" where
  "uploadFile env req st =
     (case uploadFile_try env req st of
        (Inr res, st') \<Rightarrow> (res, st')
      | (Inl err, st') \<Rightarrow> uploadFile_catch req err st')"

section \<open>The prompts\<close>

text \<open>
  The template literals of \<^verbatim>\<open>getSummary\<close> and \<^verbatim>\<open>getQuiz\<close>, line by line. The
  description of a stored document is a string, so \<^verbatim>\<open>file.description || 'Not provided'\<close>
  replaces exactly the empty description.
\<close>

definition summaryPrompt :: "file_doc \<Rightarrow> string" where
  \<open>summaryPrompt f =
     ''You are an educational AI assistant. Generate a comprehensive and well-structured summary for a study material.\<newline>''
     @ ''\<newline>''
     @ ''Title: "'' @ title f @ ''"\<newline>''
     @ ''Subject: '' @ subject f @ ''\<newline>''
     @ ''Description: '' @ (if description f = [] then ''Not provided'' else description f) @ ''\<newline>''
     @ ''\<newline>''
     @ ''Please provide:\<newline>''
     @ ''1. A brief overview (2-3 sentences)\<newline>''
     @ ''2. Key concepts and topics covered (bullet points)\<newline>''
     @ ''3. Important points students should remember\<newline>''
     @ ''4. Learning objectives\<newline>''
     @ ''\<newline>''
     @ ''Make it educational, clear, and easy to understand for students.''\<close>

definition quizPrompt :: "file_doc \<Rightarrow> string" where
  \<open>quizPrompt f =
     ''You are an educational AI assistant. Generate a quiz for study material.\<newline>''
     @ ''\<newline>''
     @ ''Title: "'' @ title f @ ''"\<newline>''
     @ ''Subject: '' @ subject f @ ''\<newline>''
     @ ''Description: '' @ (if description f = [] then ''Not provided'' else description f) @ ''\<newline>''
     @ ''\<newline>''
     @ ''Generate exactly 5 multiple-choice questions to test student understanding.\<newline>''
     @ ''\<newline>''
     @ ''IMPORTANT: Return ONLY a valid JSON array with no additional text, markdown, or formatting. Use this exact format:\<newline>''
     @ ''\<newline>''
     @ ''[\<newline>''
     @ ''  {\<newline>''
     @ ''    "question": "Question text here?",\<newline>''
     @ ''    "options": ["A) First option", "B) Second option", "C) Third option", "D) Fourth option"],\<newline>''
     @ ''    "correctAnswer": "A",\<newline>''
     @ ''    "explanation": "Brief explanation why this answer is correct"\<newline>''
     @ ''  }\<newline>''
     @ '']\<newline>''
     @ ''\<newline>''
     @ ''Requirements:\<newline>''
     @ ''- Questions should test understanding, not just memorization\<newline>''
     @ ''- Options should be plausible and challenging\<newline>''
     @ ''- Explanations should be educational\<newline>''
     @ ''- Return ONLY the JSON array, nothing else''\<close>

section \<open>\<^verbatim>\<open>getAllFiles\<close> and \<^verbatim>\<open>getFile\<close>\<close>

definition ok :: "payload \<Rightarrow> response" where
  "ok d = \<lparr>status = 200, success = True, message = None, data = d\<rparr>"

definition getAllFiles :: "outcomes \<Rightarrow> server \<Rightarrow> response \<times> server" where
  "getAllFiles env st =
     (case find_error env of
        Some err \<Rightarrow> (failure 500 err, console_error ''Get files error:'' err st)
      | None \<Rightarrow>
          (let found = sort_newest_first (map (populate ''name email role'' (users st)) (files st))
           in (ok (FileList (length found) found), st)))"

definition getFile :: "outcomes \<Rightarrow> string \<Rightarrow> server \<Rightarrow> response \<times> server" where
  "getFile env i st =
     (case find_error env of
        Some err \<Rightarrow> (failure 500 err, console_error ''Get file error:'' err st)
      | None \<Rightarrow>
          (case map_option (populate ''name email role'' (users st)) (findById (files st) i) of
             None \<Rightarrow> (failure 404 ''File not found'', st)
           | Some found \<Rightarrow> (ok (FileData found), st)))"

section \<open>\<^verbatim>\<open>getSummary\<close> and \<^verbatim>\<open>getQuiz\<close>\<close>

definition getSummary_catch :: "string \<Rightarrow> server \<Rightarrow> response \<times> server" where
  "getSummary_catch err st =
     (failure 500 ''Failed to generate summary. Please try again.'',
      console_error ''Summary generation error:'' err st)"

definition getSummary :: "outcomes \<Rightarrow> string \<Rightarrow> server \<Rightarrow> response \<times> server" where
  "getSummary env i st =
     (case find_error env of
        Some err \<Rightarrow> getSummary_catch err st
      | None \<Rightarrow>
          (case findById (files st) i of
             None \<Rightarrow> (failure 404 ''File not found'', st)
           | Some f \<Rightarrow>
               (case generateContent env (summaryPrompt f) of
                  Inl err \<Rightarrow> getSummary_catch err st
                | Inr text \<Rightarrow>
                    (ok (SummaryData \<lparr>s_fileId = doc_id f, s_title = title f,
                                      s_subject = subject f, summary = text,
                                      s_generatedAt = now env\<rparr>),
                     st))))"

text \<open>
  \<^verbatim>\<open>quiz.length\<close> on the decoded value: the number of elements of an array, the number
  of code units of a string, the member named \<^verbatim>\<open>length\<close> of an object (the last one
  when the key is repeated), undefined on a number or a boolean, and a
  \<^verbatim>\<open>TypeError\<close> (\<^term>\<open>None\<close>) on null.
\<close>

definition length_key :: "nat list" where
  "length_key = map of_char ''length''"

fun length_prop :: "json \<Rightarrow> js_prop option" where
  "length_prop JNull = None"
| "length_prop (JBool b) = Some Undefined"
| "length_prop (JNum n) = Some Undefined"
| "length_prop (JStr s) = Some (NumberValue (length s))"
| "length_prop (JArr xs) = Some (NumberValue (length xs))"
| "length_prop (JObj kvs) =
     (case map_of (rev kvs) length_key of
        None \<Rightarrow> Some Undefined
      | Some v \<Rightarrow> Some (JsonValue v))"

definition getQuiz_catch :: "string \<Rightarrow> server \<Rightarrow> response \<times> server" where
  "getQuiz_catch err st =
     (failure 500 ''Failed to generate quiz. Please try again.'',
      console_error ''Quiz generation error:'' err st)"

definition getQuiz :: "outcomes \<Rightarrow> string \<Rightarrow> server \<Rightarrow> response \<times> server" where
  "getQuiz env i st =
     (case find_error env of
        Some err \<Rightarrow> getQuiz_catch err st
      | None \<Rightarrow>
          (case findById (files st) i of
             None \<Rightarrow> (failure 404 ''File not found'', st)
           | Some f \<Rightarrow>
               (case generateContent env (quizPrompt f) of
                  Inl err \<Rightarrow> getQuiz_catch err st
                | Inr quizText \<Rightarrow>
                    (case parseQuiz quizText of
                       None \<Rightarrow> getQuiz_catch ''SyntaxError'' st
                     | Some q \<Rightarrow>
                         (case length_prop q of
                            None \<Rightarrow> getQuiz_catch ''TypeError'' st
                          | Some n \<Rightarrow>
                              (ok (QuizData \<lparr>q_fileId = doc_id f, q_title = title f,
                                             q_subject = subject f, quiz = q,
                                             totalQuestions = n,
                                             q_generatedAt = now env\<rparr>),
                               st))))))"

section \<open>The structural contract of a quiz, as the specification words it\<close>

text \<open>
  Exactly 5 entries; each entry an object with a \<^verbatim>\<open>question\<close> text, \<^verbatim>\<open>options\<close> of
  length 4, a \<^verbatim>\<open>correctAnswer\<close> among A, B, C, D and an \<^verbatim>\<open>explanation\<close> text.
\<close>

definition js_string :: "string \<Rightarrow> nat list" where
  "js_string = map of_char"

definition member :: "(nat list \<times> json) list \<Rightarrow> string \<Rightarrow> json option" where
  "member kvs k = map_of (rev kvs) (js_string k)"

definition is_text :: "json option \<Rightarrow> bool" where
  "is_text v = (case v of Some (JStr s) \<Rightarrow> True | _ \<Rightarrow> False)"

definition spec_valid_question :: "json \<Rightarrow> bool" where
  "spec_valid_question q =
     (case q of
        JObj kvs \<Rightarrow>
          is_text (member kvs ''question'')
          \<and> (case member kvs ''options'' of Some (JArr os) \<Rightarrow> length os = 4 | _ \<Rightarrow> False)
          \<and> (case member kvs ''correctAnswer'' of
                Some (JStr a) \<Rightarrow> a \<in> set (map js_string [''A'', ''B'', ''C'', ''D''])
              | _ \<Rightarrow> False)
          \<and> is_text (member kvs ''explanation'')
      | _ \<Rightarrow> False)"

definition spec_valid_quiz :: "json \<Rightarrow> bool" where
  "spec_valid_quiz q =
     (case q of JArr qs \<Rightarrow> length qs = 5 \<and> list_all spec_valid_question qs | _ \<Rightarrow> False)"

section \<open>Requests that pass validation\<close>

text \<open>
  A request passes the checks of \<^verbatim>\<open>uploadFile\<close> when title and subject are present, a file
  is staged, and the lower-cased text behind the last dot of its name is an allowed type.
  \<^term>\<open>stored\<close> is the state after the storage upload, \<^term>\<open>new_doc\<close> the record
  that \<^verbatim>\<open>File.create\<close> is asked to write.
\<close>

definition passes_validation :: "upload_request \<Rightarrow> uploaded_file \<Rightarrow> string \<Rightarrow> bool" where
  "passes_validation req f ext \<longleftrightarrow>
     \<not> falsy (body_title req) \<and> \<not> falsy (body_subject req) \<and> req_file req = Some f
     \<and> map_option toLowerCase (pop (split_on (CHR ''.'') (originalname f))) = Some ext
     \<and> ext \<in> set allowedTypes"

definition stored :: "server \<Rightarrow> string \<Rightarrow> string \<Rightarrow> server" where
  "stored st url pid = st\<lparr>cloud := cloud st @ [(pid, url)]\<rparr>"

definition new_doc :: "upload_request \<Rightarrow> string \<Rightarrow> string \<Rightarrow> string \<Rightarrow> string \<Rightarrow> nat \<Rightarrow> file_doc" where
  "new_doc req ext url pid new_id created =
     \<lparr>doc_id = new_id, title = the (body_title req),
      description = or_else (body_description req) [],
      subject = the (body_subject req), fileUrl = url,
      fileType = (if ext = ''pptx'' then ''ppt'' else ext),
      publicId = pid, createdBy = req_user req, createdAt = created\<rparr>"

section \<open>A small world for concrete runs\<close>

text \<open>
  One teacher, one stored document, one staged upload, and collaborators that all succeed;
  the generation backend answers every prompt with the given outcome.
\<close>

definition demo_user :: user_doc where
  "demo_user = [(''_id'', ''u1''), (''name'', ''Ada''), (''email'', ''ada@school.example''),
                (''role'', ''teacher''), (''password'', ''secret-hash'')]"

definition demo_doc :: file_doc where
  "demo_doc = \<lparr>doc_id = ''f1'', title = ''Algebra Basics'', description = [], subject = ''Math'',
               fileUrl = ''https://res.example/notes.pdf'', fileType = ''pdf'',
               publicId = ''studygeni/notes'', createdBy = ''u1'', createdAt = 10\<rparr>"

definition demo_server :: server where
  "demo_server = \<lparr>disk = {''uploads/2-slides.pptx''},
                  cloud = [(''studygeni/notes'', ''https://res.example/notes.pdf'')],
                  files = [demo_doc], users = [demo_user], console = []\<rparr>"

definition demo_env :: "string + string \<Rightarrow> outcomes" where
  "demo_env answer =
     \<lparr>upload_outcome = Inr (''https://res.example/slides.pptx'', ''studygeni/slides''),
      create_outcome = Inr (''f2'', 20), populate_error = None, find_error = None,
      generateContent = (\<lambda>prompt. answer), now = 30\<rparr>"

definition demo_request :: upload_request where
  "demo_request = \<lparr>body_title = Some ''Slides'', body_description = None,
                   body_subject = Some ''Math'',
                   req_file = Some \<lparr>originalname = ''Week1.PPTX'', path = ''uploads/2-slides.pptx''\<rparr>,
                   req_user = ''u1''\<rparr>"

definition demo_quiz_data :: quiz_data where
  "demo_quiz_data =
     \<lparr>q_fileId = ''f1'', q_title = ''Algebra Basics'', q_subject = ''Math'',
      quiz = JArr [JObj [(js_string ''question'', JStr (js_string ''Q?''))],
                   JObj [(js_string ''question'', JStr (js_string ''R?''))]],
      totalQuestions = NumberValue 2, q_generatedAt = 30\<rparr>"

definition question_text :: string where
  \<open>question_text =
     ''{"question":"Q?","options":["A) 3","B) 4","C) 5","D) 6"],"correctAnswer":"B","explanation":"E"}''\<close>

definition five_question_text :: string where
  "five_question_text =
     ''['' @ question_text @ '','' @ question_text @ '','' @ question_text @ '',''
       @ question_text @ '','' @ question_text @ '']''"

definition short_quiz_text :: string where
  \<open>short_quiz_text =
     ''[{"question":"Q?","options":["A) x","B) y"],"correctAnswer":"E","explanation":"z"}]''\<close>

definition short_quiz :: json where
  "short_quiz =
     JArr [JObj [(js_string ''question'', JStr (js_string ''Q?'')),
                 (js_string ''options'', JArr [JStr (js_string ''A) x''), JStr (js_string ''B) y'')]),
                 (js_string ''correctAnswer'', JStr (js_string ''E'')),
                 (js_string ''explanation'', JStr (js_string ''z''))]]"

text \<open>
  A second world for the document reads: two users and three documents, stored in an order
  that is not the order of their creation times, with what the reads show of each owner.
\<close>

definition second_user :: user_doc where
  "second_user = [(''_id'', ''u2''), (''name'', ''Bob''), (''email'', ''bob@school.example''),
                  (''role'', ''teacher''), (''password'', ''other-hash'')]"

definition newest_doc :: file_doc where
  "newest_doc = \<lparr>doc_id = ''f3'', title = ''Cell Biology'', description = ''Week 2'',
                  subject = ''Biology'', fileUrl = ''https://res.example/cells.docx'',
                  fileType = ''docx'', publicId = ''studygeni/cells'', createdBy = ''u2'',
                  createdAt = 30\<rparr>"

definition middle_doc :: file_doc where
  "middle_doc = \<lparr>doc_id = ''f4'', title = ''Geometry'', description = [],
                  subject = ''Math'', fileUrl = ''https://res.example/geometry.ppt'',
                  fileType = ''ppt'', publicId = ''studygeni/geometry'', createdBy = ''u1'',
                  createdAt = 20\<rparr>"

definition library_server :: server where
  "library_server = \<lparr>disk = {''uploads/2-slides.pptx''},
                     cloud = [],
                     files = [demo_doc, newest_doc, middle_doc],
                     users = [demo_user, second_user], console = []\<rparr>"

definition ada_shown :: user_doc where
  "ada_shown = [(''_id'', ''u1''), (''name'', ''Ada''), (''email'', ''ada@school.example''),
                (''role'', ''teacher'')]"

definition bob_shown :: user_doc where
  "bob_shown = [(''_id'', ''u2''), (''name'', ''Bob''), (''email'', ''bob@school.example''),
                (''role'', ''teacher'')]"

definition library_listing :: "populated_file list" where
  "library_listing = [\<lparr>doc = newest_doc, creator = Some bob_shown\<rparr>,
                      \<lparr>doc = middle_doc, creator = Some ada_shown\<rparr>,
                      \<lparr>doc = demo_doc, creator = Some ada_shown\<rparr>]"

section \<open>Properties of the clean-up\<close>

declare replace_fence.simps [simp del]

lemma replace_fence_Nil [simp]: "replace_fence lit [] = []"
  by (simp add: replace_fence.simps)

lemma replace_fence_match:
  "lit \<noteq> [] \<Longrightarrow> prefix lit s \<Longrightarrow>
   replace_fence lit s = replace_fence lit (drop_line_feed (drop (length lit) s))"
  by (subst replace_fence.simps) auto

lemma replace_fence_keep:
  "\<not> prefix lit (c # cs) \<Longrightarrow> replace_fence lit (c # cs) = c # replace_fence lit cs"
  by (subst replace_fence.simps) auto

lemma replace_fence_keep_char:
  "lit \<noteq> [] \<Longrightarrow> c \<noteq> hd lit \<Longrightarrow> replace_fence lit (c # cs) = c # replace_fence lit cs"
  by (rule replace_fence_keep) (cases lit; auto)







section \<open>Properties of the decoder\<close>

declare parse_value.simps [simp del] parse_elements.simps [simp del] parse_members.simps [simp del]

lemma digits1_split: "digits1 s = Some (t, r) \<Longrightarrow> s = t @ r \<and> t \<noteq> []"
  by (auto simp: digits1_def Let_def split: if_splits)

lemma int_part_split: "int_part s = Some (t, r) \<Longrightarrow> s = t @ r \<and> t \<noteq> []"
  by (auto simp: int_part_def split: list.splits if_splits dest: digits1_split)

lemma frac_part_split: "frac_part s = Some (t, r) \<Longrightarrow> s = t @ r"
  by (auto simp: frac_part_def split: list.splits if_splits dest: digits1_split)

lemma exp_part_split: "exp_part s = Some (t, r) \<Longrightarrow> s = t @ r"
  by (auto simp: exp_part_def split: list.splits if_splits dest: digits1_split)

lemma number_token_split: "number_token s = Some (t, r) \<Longrightarrow> s = t @ r \<and> t \<noteq> []"
  by (auto simp: number_token_def split: list.splits if_splits option.splits
      dest!: int_part_split frac_part_split exp_part_split)

lemma string_chars_suffix: "string_chars s = Some (k, r) \<Longrightarrow> suffix r s"
proof (induction s arbitrary: k r rule: string_chars.induct)
  case 1
  then show ?case by simp
next
  case (2 c cs)
  then show ?case
    by (fastforce simp: unit_cons_def suffix_Cons split: if_splits list.splits option.splits)
qed

lemma skip_ws_split: "skip_ws s = d # r \<Longrightarrow> \<exists>w. s = w @ d # r \<and> (\<forall>c\<in>set w. is_json_ws c)"
proof -
  assume a: "skip_ws s = d # r"
  have "s = takeWhile is_json_ws s @ dropWhile is_json_ws s" by simp
  with a have "s = takeWhile is_json_ws s @ d # r" by (simp add: skip_ws_def)
  moreover have "\<forall>c\<in>set (takeWhile is_json_ws s). is_json_ws c"
    by (auto dest: set_takeWhileD)
  ultimately show ?thesis by blast
qed

lemma skip_ws_suffix: "suffix (skip_ws s) s"
  by (simp add: skip_ws_def suffix_dropWhile)

lemma consumedI: "s = c @ r \<Longrightarrow> c \<noteq> [] \<Longrightarrow> consumed s r"
  unfolding consumed_def by blast

lemma parse_shape:
  "\<forall>v r. parse_value s = Some (v, r) \<longrightarrow>
      consumed s r \<and> (\<forall>xs. v = JArr xs \<longrightarrow> (\<exists>m. s = CHR ''['' # m @ CHR '']'' # r))"
  "\<forall>vs r. parse_elements s1 = Some (vs, r) \<longrightarrow> closed_by (CHR '']'') s1 r"
  "\<forall>kvs r. parse_members s2 = Some (kvs, r) \<longrightarrow> closed_by (CHR ''}'') s2 r"
proof (induction s and s1 and s2 rule: parse_value_parse_elements_parse_members.induct)
  case (1 s)
  show ?case
  proof (intro allI impI)
    fix v r
    assume pv: "parse_value s = Some (v, r)"
    then obtain c r0 where s: "s = c # r0"
      by (cases s) (auto simp: parse_value.simps)
    consider (arr) "c = CHR ''[''" | (obj) "c \<noteq> CHR ''[''" "c = CHR ''{''"
      | (other) "c \<noteq> CHR ''[''" "c \<noteq> CHR ''{''" by blast
    then show "consumed s r \<and> (\<forall>xs. v = JArr xs \<longrightarrow> (\<exists>m. s = CHR ''['' # m @ CHR '']'' # r))"
    proof cases
      case arr
      from pv s arr obtain d r' where sk: "skip_ws r0 = d # r'"
        by (cases "skip_ws r0") (auto simp: parse_value.simps)
      then obtain w where w: "r0 = w @ d # r'" using skip_ws_split by blast
      show ?thesis
      proof (cases "d = CHR '']''")
        case True
        with pv s arr sk have "r = r'" by (auto simp: parse_value.simps)
        with w s arr True have e: "s = CHR ''['' # w @ CHR '']'' # r" by simp
        then have "s = (CHR ''['' # w @ [CHR '']'']) @ r" by simp
        then have "consumed s r" by (rule consumedI) simp
        with e show ?thesis by blast
      next
        case False
        with pv s arr sk obtain xs where "parse_elements (d # r') = Some (xs, r)"
          by (auto simp: parse_value.simps)
        with 1(1)[OF s arr sk False] obtain m where "d # r' = m @ CHR '']'' # r"
          by (auto simp: closed_by_def)
        with w s arr have e: "s = CHR ''['' # (w @ m) @ CHR '']'' # r" by simp
        then have "s = (CHR ''['' # (w @ m) @ [CHR '']'']) @ r" by simp
        then have "consumed s r" by (rule consumedI) simp
        with e show ?thesis by blast
      qed
    next
      case obj
      from pv s obj obtain d r' where sk: "skip_ws r0 = d # r'"
        by (cases "skip_ws r0") (auto simp: parse_value.simps)
      then obtain w where w: "r0 = w @ d # r'" using skip_ws_split by blast
      have notarr: "\<forall>xs. v \<noteq> JArr xs"
        using pv s obj sk by (auto simp: parse_value.simps split: if_splits)
      show ?thesis
      proof (cases "d = CHR ''}''")
        case True
        with pv s obj sk have "r = r'" by (auto simp: parse_value.simps)
        with w s True have "s = (c # w @ [d]) @ r" by simp
        then have "consumed s r" by (rule consumedI) simp
        with notarr show ?thesis by simp
      next
        case False
        with pv s obj sk obtain kvs where "parse_members (d # r') = Some (kvs, r)"
          by (auto simp: parse_value.simps)
        with 1(2)[OF s obj sk False] obtain m where "d # r' = m @ CHR ''}'' # r"
          by (auto simp: closed_by_def)
        with w s have "s = (c # w @ m @ [CHR ''}'']) @ r" by simp
        then have "consumed s r" by (rule consumedI) simp
        with notarr show ?thesis by simp
      qed
    next
      case other
      have notarr: "\<forall>xs. v \<noteq> JArr xs"
        using pv s other by (auto simp: parse_value.simps split: if_splits)
      have "consumed s r"
      proof (cases "c = dquote")
        case True
        with pv s other obtain k where "string_chars r0 = Some (k, r)"
          by (auto simp: parse_value.simps)
        then have "suffix r r0" by (rule string_chars_suffix)
        then obtain m where "r0 = m @ r" by (auto simp: suffix_def)
        with s have "s = (c # m) @ r" by simp
        then show ?thesis by (rule consumedI) simp
      next
        case False
        from pv s other False have
          "(prefix ''true'' s \<and> r = drop 4 s) \<or> (prefix ''false'' s \<and> r = drop 5 s)
            \<or> (prefix ''null'' s \<and> r = drop 4 s) \<or> (\<exists>t. number_token s = Some (t, r))"
          by (auto simp: parse_value.simps split: if_splits)
        then show ?thesis
        proof (elim disjE conjE exE)
          assume "prefix ''true'' s" "r = drop 4 s"
          then show ?thesis by (intro consumedI [of _ "''true''"]) (auto simp: prefix_def)
        next
          assume "prefix ''false'' s" "r = drop 5 s"
          then show ?thesis by (intro consumedI [of _ "''false''"]) (auto simp: prefix_def)
        next
          assume "prefix ''null'' s" "r = drop 4 s"
          then show ?thesis by (intro consumedI [of _ "''null''"]) (auto simp: prefix_def)
        next
          fix t assume "number_token s = Some (t, r)"
          then have "s = t @ r \<and> t \<noteq> []" by (rule number_token_split)
          then show ?thesis by (intro consumedI [of _ t]) auto
        qed
      qed
      with notarr show ?thesis by simp
    qed
  qed
next
  case (2 s)
  show ?case
  proof (intro allI impI)
    fix vs r
    assume pe: "parse_elements s = Some (vs, r)"
    then obtain v r1 where pv: "parse_value (skip_ws s) = Some (v, r1)"
      by (subst (asm) parse_elements.simps) (auto split: option.splits)
    with pe have len: "length r1 < length s"
      by (subst (asm) parse_elements.simps) (auto split: if_splits)
    from pe pv len obtain d r' where sk: "skip_ws r1 = d # r'"
      by (subst (asm) parse_elements.simps) (auto split: list.splits)
    from 2(1) pv have "consumed (skip_ws s) r1" by blast
    then obtain c1 where c1: "skip_ws s = c1 @ r1" by (auto simp: consumed_def)
    obtain w0 where w0: "s = w0 @ skip_ws s" using skip_ws_suffix by (auto simp: suffix_def)
    from sk obtain w where w: "r1 = w @ d # r'" using skip_ws_split by blast
    show "closed_by (CHR '']'') s r"
    proof (cases "d = CHR '',''")
      case True
      with pe pv len sk obtain vs' where "parse_elements r' = Some (vs', r)"
        by (subst (asm) parse_elements.simps) auto
      with 2(2)[OF pv refl len sk True] obtain m where "r' = m @ CHR '']'' # r"
        by (auto simp: closed_by_def)
      with w0 c1 w have "s = (w0 @ c1 @ w @ d # m) @ CHR '']'' # r" by simp
      then show ?thesis unfolding closed_by_def by blast
    next
      case False
      with pe pv len sk have "d = CHR '']''" "r = r'"
        by (subst (asm) parse_elements.simps, auto split: if_splits)+
      with w0 c1 w have "s = (w0 @ c1 @ w) @ CHR '']'' # r" by simp
      then show ?thesis unfolding closed_by_def by blast
    qed
  qed
next
  case (3 s)
  show ?case
  proof (intro allI impI)
    fix kvs r
    assume pm: "parse_members s = Some (kvs, r)"
    then obtain q r0 where sk0: "skip_ws s = q # r0"
      by (subst (asm) parse_members.simps) (auto split: list.splits)
    with pm have q: "\<not> q \<noteq> dquote"
      by (subst (asm) parse_members.simps) (auto split: if_splits)
    from pm sk0 q obtain k r1 where sc: "string_chars r0 = Some (k, r1)"
      by (subst (asm) parse_members.simps) (auto split: option.splits)
    from pm sk0 q sc obtain col r2 where sk1: "skip_ws r1 = col # r2"
      by (subst (asm) parse_members.simps) (auto split: list.splits)
    from pm sk0 q sc sk1 have col: "\<not> col \<noteq> CHR '':''"
      by (subst (asm) parse_members.simps) (auto split: if_splits)
    from pm sk0 q sc sk1 col obtain v r3 where pv: "parse_value (skip_ws r2) = Some (v, r3)"
      by (subst (asm) parse_members.simps) (auto split: option.splits)
    from pm sk0 q sc sk1 col pv have len: "length r3 < length s"
      by (subst (asm) parse_members.simps) (auto split: if_splits)
    from pm sk0 q sc sk1 col pv len obtain d r4 where sk3: "skip_ws r3 = d # r4"
      by (subst (asm) parse_members.simps) (auto split: list.splits)
    from 3(1)[OF sk0 q sc refl sk1 col] pv have "consumed (skip_ws r2) r3" by blast
    then obtain c3 where c3: "skip_ws r2 = c3 @ r3" by (auto simp: consumed_def)
    obtain w2 where w2: "r2 = w2 @ skip_ws r2" using skip_ws_suffix by (auto simp: suffix_def)
    from sk0 obtain w0 where w0: "s = w0 @ q # r0" using skip_ws_split by blast
    from sc have "suffix r1 r0" by (rule string_chars_suffix)
    then obtain c0 where c0: "r0 = c0 @ r1" by (auto simp: suffix_def)
    from sk1 obtain w1 where w1: "r1 = w1 @ col # r2" using skip_ws_split by blast
    from sk3 obtain w3 where w3: "r3 = w3 @ d # r4" using skip_ws_split by blast
    have s_eq: "s = (w0 @ q # c0 @ w1 @ col # w2 @ c3 @ w3) @ d # r4"
      using w0 c0 w1 w2 c3 w3 by simp
    show "closed_by (CHR ''}'') s r"
    proof (cases "d = CHR '',''")
      case True
      with pm sk0 q sc sk1 col pv len sk3 obtain kvs' where "parse_members r4 = Some (kvs', r)"
        by (subst (asm) parse_members.simps) auto
      with 3(2)[OF sk0 q sc refl sk1 col pv refl len sk3 True] obtain m where "r4 = m @ CHR ''}'' # r"
        by (auto simp: closed_by_def)
      with s_eq have "s = (w0 @ q # c0 @ w1 @ col # w2 @ c3 @ w3 @ d # m) @ CHR ''}'' # r" by simp
      then show ?thesis unfolding closed_by_def by blast
    next
      case False
      with pm sk0 q sc sk1 col pv len sk3 have "d = CHR ''}''" "r = r4"
        by (subst (asm) parse_members.simps, auto split: if_splits)+
      with s_eq show ?thesis unfolding closed_by_def by blast
    qed
  qed
qed

text \<open>
  The tests \<^verbatim>\<open>length r < length s\<close> in the loops of the parser only serve the termination
  proof: they always succeed, so the loops obey the equations without them.
\<close>

lemma parse_value_shorter: "parse_value s = Some (v, r) \<Longrightarrow> length r < length s"
proof -
  assume "parse_value s = Some (v, r)"
  with parse_shape(1) [of s] have "consumed s r" by blast
  then show ?thesis by (auto simp: consumed_def)
qed

lemma parse_elements_unguarded:
  "parse_elements s =
     (case parse_value (skip_ws s) of
        None \<Rightarrow> None
      | Some (v, r) \<Rightarrow>
          (case skip_ws r of
             [] \<Rightarrow> None
           | d # r' \<Rightarrow>
               if d = CHR '','' then map_option (apfst ((#) v)) (parse_elements r')
               else if d = CHR '']'' then Some ([v], r')
               else None))"
proof (cases "parse_value (skip_ws s)")
  case None
  then show ?thesis by (subst parse_elements.simps) simp
next
  case (Some a)
  obtain v r where a: "a = (v, r)" by (cases a)
  with Some have "length r < length (skip_ws s)" by (auto dest: parse_value_shorter)
  with length_skip_ws [of s] have "length r < length s" by simp
  with Some a show ?thesis by (subst parse_elements.simps) simp
qed

lemma parse_members_unguarded:
  "parse_members s =
     (case skip_ws s of
        [] \<Rightarrow> None
      | q # r0 \<Rightarrow>
          if q \<noteq> dquote then None
          else
            (case string_chars r0 of
               None \<Rightarrow> None
             | Some (k, r1) \<Rightarrow>
                 (case skip_ws r1 of
                    [] \<Rightarrow> None
                  | col # r2 \<Rightarrow>
                      if col \<noteq> CHR '':'' then None
                      else
                        (case parse_value (skip_ws r2) of
                           None \<Rightarrow> None
                         | Some (v, r3) \<Rightarrow>
                             (case skip_ws r3 of
                                [] \<Rightarrow> None
                              | d # r4 \<Rightarrow>
                                  if d = CHR '','' then
                                    map_option (apfst ((#) (k, v))) (parse_members r4)
                                  else if d = CHR ''}'' then Some ([(k, v)], r4)
                                  else None)))))"
proof -
  have guard: "length r3 < length s"
    if "skip_ws s = q # r0" "string_chars r0 = Some (k, r1)" "skip_ws r1 = col # r2"
       "parse_value (skip_ws r2) = Some (v, r3)" for q r0 k r1 col r2 v r3
  proof -
    have "length r3 < length (skip_ws r2)" using that(4) by (rule parse_value_shorter)
    also have "\<dots> \<le> length r2" by (rule length_skip_ws)
    also have "\<dots> \<le> length (skip_ws r1)" using that(3) by simp
    also have "\<dots> \<le> length r1" by (rule length_skip_ws)
    also have "\<dots> \<le> length r0" using string_chars_shorter [OF that(2)] by simp
    also have "\<dots> \<le> length (skip_ws s)" using that(1) by simp
    also have "\<dots> \<le> length s" by (rule length_skip_ws)
    finally show ?thesis .
  qed
  show ?thesis
  proof (cases "skip_ws s")
    case Nil
    then show ?thesis by (subst parse_members.simps) simp
  next
    case s0: (Cons q r0)
    show ?thesis
    proof (cases "string_chars r0")
      case None
      with s0 show ?thesis by (subst parse_members.simps) simp
    next
      case (Some a)
      obtain k r1 where a: "a = (k, r1)" by (cases a)
      show ?thesis
      proof (cases "skip_ws r1")
        case Nil
        with s0 Some a show ?thesis by (subst parse_members.simps) simp
      next
        case s1: (Cons col r2)
        show ?thesis
        proof (cases "parse_value (skip_ws r2)")
          case None
          with s0 Some a s1 show ?thesis by (subst parse_members.simps) simp
        next
          case pv: (Some b)
          obtain v r3 where b: "b = (v, r3)" by (cases b)
          have "length r3 < length s"
            using guard [OF s0 _ s1] Some a pv b by simp
          with s0 Some a s1 pv b show ?thesis by (subst parse_members.simps) simp
        qed
      qed
    qed
  qed
qed

lemma JSON_parse_array_shape:
  assumes "JSON_parse p = Some (JArr xs)"
  shows "\<exists>a m b. p = a @ CHR ''['' # m @ CHR '']'' # b
           \<and> (\<forall>c\<in>set a. is_json_ws c) \<and> (\<forall>c\<in>set b. is_json_ws c)"
proof -
  from assms obtain r where pv: "parse_value (skip_ws p) = Some (JArr xs, r)" and r: "skip_ws r = []"
    by (auto simp: JSON_parse_def split: option.splits if_splits)
  from parse_shape(1) [of "skip_ws p"] pv obtain m where m: "skip_ws p = CHR ''['' # m @ CHR '']'' # r"
    by blast
  have p: "p = takeWhile is_json_ws p @ skip_ws p" by (simp add: skip_ws_def)
  have a: "\<forall>c\<in>set (takeWhile is_json_ws p). is_json_ws c" by (auto dest: set_takeWhileD)
  from r have b: "\<forall>c\<in>set r. is_json_ws c" by (simp add: skip_ws_def dropWhile_eq_Nil_conv)
  from p m have "p = takeWhile is_json_ws p @ CHR ''['' # m @ CHR '']'' # r" by simp
  with a b show ?thesis by blast
qed

lemma replace_fence_skip:
  "lit = [] \<or> \<not> prefix lit (c # cs) \<Longrightarrow> replace_fence lit (c # cs) = c # replace_fence lit cs"
  by (subst replace_fence.simps) auto

lemma replace_fence_absent:
  "x \<in> set lit \<Longrightarrow> x \<notin> set s \<Longrightarrow> replace_fence lit s = s"
proof (induction s)
  case Nil
  then show ?case by simp
next
  case (Cons c cs)
  have "\<not> prefix lit (c # cs)"
  proof
    assume "prefix lit (c # cs)"
    then have "set lit \<subseteq> set (c # cs)" by (rule set_mono_prefix)
    with Cons.prems show False by auto
  qed
  then have "replace_fence lit (c # cs) = c # replace_fence lit cs" by (rule replace_fence_keep)
  with Cons show ?case by simp
qed

lemma drop_line_feed_append:
  "c \<noteq> line_feed \<Longrightarrow> drop_line_feed (u @ c # t) = drop_line_feed u @ c # t"
  by (cases u) auto

lemma replace_fence_neutral:
  assumes "c \<notin> set lit" "c \<noteq> line_feed"
  shows "replace_fence lit (s @ c # t) = replace_fence lit s @ c # replace_fence lit t"
  using assms
proof (induction lit s rule: replace_fence.induct)
  case (1 lit s)
  have straddle: "prefix lit s" if "prefix lit (s @ c # t)" "c \<notin> set lit" for s
  proof -
    from that(1) consider "prefix lit s" | us where "lit = s @ us" "prefix us (c # t)"
      by (auto simp: prefix_append)
    then show ?thesis
    proof cases
      case 1
      then show ?thesis .
    next
      case 2
      show ?thesis
      proof (cases us)
        case Nil
        with 2 show ?thesis by simp
      next
        case (Cons u us')
        with 2 have "u = c" by simp
        with 2 Cons that(2) show ?thesis by simp
      qed
    qed
  qed
  show ?case
  proof (cases "s = []")
    case True
    have "lit = [] \<or> \<not> prefix lit (c # t)"
      using straddle [of "[]"] 1(3) by (cases lit) auto
    then have "replace_fence lit (c # t) = c # replace_fence lit t" by (rule replace_fence_skip)
    with True show ?thesis by simp
  next
    case ne: False
    show ?thesis
    proof (cases "lit \<noteq> [] \<and> prefix lit s")
      case True
      then have len: "length lit \<le> length s" by (auto dest: prefix_length_le)
      from True have pre: "prefix lit (s @ c # t)" by (auto simp: prefix_append)
      have "replace_fence lit (s @ c # t)
            = replace_fence lit (drop_line_feed (drop (length lit) (s @ c # t)))"
        using True pre by (intro replace_fence_match) auto
      also have "drop (length lit) (s @ c # t) = drop (length lit) s @ c # t"
        using len by simp
      also have "drop_line_feed (drop (length lit) s @ c # t)
            = drop_line_feed (drop (length lit) s) @ c # t"
        using 1(4) by (rule drop_line_feed_append)
      also have "replace_fence lit (drop_line_feed (drop (length lit) s) @ c # t)
            = replace_fence lit (drop_line_feed (drop (length lit) s)) @ c # replace_fence lit t"
        using 1(1) [OF ne True 1(3) 1(4)] .
      also have "replace_fence lit (drop_line_feed (drop (length lit) s)) = replace_fence lit s"
        using True by (intro replace_fence_match [symmetric]) auto
      finally show ?thesis .
    next
      case False
      from ne obtain d s' where s: "s = d # s'" by (cases s) auto
      have no: "lit = [] \<or> \<not> prefix lit (d # s' @ c # t)"
        using straddle [of s] 1(3) False s by auto
      have a: "replace_fence lit (s @ c # t) = d # replace_fence lit (s' @ c # t)"
        using no s replace_fence_skip [of lit d "s' @ c # t"] by simp
      have b: "replace_fence lit (s' @ c # t) = replace_fence lit s' @ c # replace_fence lit t"
        using 1(2) [OF ne False 1(3) 1(4)] s by simp
      have "replace_fence lit s = d # replace_fence lit s'"
        using False s replace_fence_skip [of lit d s'] by auto
      with a b show ?thesis by simp
    qed
  qed
qed


lemma json_ws_js_space: "is_json_ws c \<Longrightarrow> is_js_space c"
  by (auto simp: is_json_ws_def is_js_space_def)

lemma trim_core:
  assumes "\<forall>c\<in>set u. is_js_space c" "\<forall>c\<in>set v. is_js_space c"
    and "\<not> is_js_space x" "\<not> is_js_space y"
  shows "trim (u @ x # mid @ y # v) = x # mid @ [y]"
proof -
  have "dropWhile is_js_space (u @ x # mid @ y # v) = x # mid @ y # v"
    using assms(1,3) by (simp add: dropWhile_append3)
  moreover have "dropWhile is_js_space (rev (x # mid @ y # v)) = y # rev mid @ [x]"
    using assms(2,4) by (simp add: dropWhile_append3)
  ultimately show ?thesis by (simp add: trim_def)
qed


lemma replace_fence_ahead:
  "lit \<noteq> [] \<Longrightarrow> hd lit \<notin> set w \<Longrightarrow> replace_fence lit (w @ s) = w @ replace_fence lit s"
  by (induction w) (auto simp: replace_fence_keep_char)

lemma set_drop_line_feed: "set (drop_line_feed s) \<subseteq> set s"
  by (cases s) auto

lemma replace_fence_opening:
  "lit \<noteq> [] \<Longrightarrow> replace_fence lit (lit @ s) = replace_fence lit (drop_line_feed s)"
  by (subst replace_fence_match) auto

lemma js_space_plain:
  "is_js_space c \<Longrightarrow> c \<noteq> CHR ''`'' \<and> c \<noteq> CHR ''j'' \<and> c \<noteq> CHR ''['' \<and> c \<noteq> CHR '']''"
  by (auto simp: is_js_space_def)

lemma blank_no_tick: "\<forall>c\<in>set w. is_js_space c \<Longrightarrow> CHR ''`'' \<notin> set w"
  using js_space_plain by blast

lemma blank_no_j: "\<forall>c\<in>set w. is_js_space c \<Longrightarrow> CHR ''j'' \<notin> set w"
  using js_space_plain by blast

lemma clean_opening:
  assumes "\<forall>c\<in>set w. is_js_space c" "opening = fence \<or> opening = json_fence"
  shows "replace_fence fence (replace_fence json_fence (opening @ w)) = drop_line_feed w"
proof -
  have dw: "\<forall>c\<in>set (drop_line_feed w). is_js_space c"
    using assms(1) set_drop_line_feed by blast
  have t: "replace_fence fence (drop_line_feed w) = drop_line_feed w"
    by (rule replace_fence_absent [of "CHR ''`''"]) (use dw blank_no_tick in \<open>auto simp: fence_def\<close>)
  from assms(2) show ?thesis
  proof
    assume o: "opening = fence"
    have "CHR ''j'' \<notin> set (fence @ w)" using assms(1) blank_no_j by (auto simp: fence_def)
    then have "replace_fence json_fence (fence @ w) = fence @ w"
      by (intro replace_fence_absent [of "CHR ''j''"]) (auto simp: json_fence_def)
    moreover have "replace_fence fence (fence @ w) = replace_fence fence (drop_line_feed w)"
      by (rule replace_fence_opening) (simp add: fence_def)
    ultimately show ?thesis using o t by simp
  next
    assume o: "opening = json_fence"
    have "replace_fence json_fence (json_fence @ w) = replace_fence json_fence (drop_line_feed w)"
      by (rule replace_fence_opening) (simp add: json_fence_def)
    moreover have "replace_fence json_fence (drop_line_feed w) = drop_line_feed w"
      by (rule replace_fence_absent [of "CHR ''j''"]) (use dw blank_no_j in \<open>auto simp: json_fence_def\<close>)
    ultimately show ?thesis using o t by simp
  qed
qed

lemma clean_closing:
  assumes "\<forall>c\<in>set u. is_js_space c" "\<forall>c\<in>set w. is_js_space c"
  shows "replace_fence fence (replace_fence json_fence (u @ fence @ w)) = u @ drop_line_feed w"
proof -
  have "CHR ''j'' \<notin> set (u @ fence @ w)" using assms blank_no_j by (auto simp: fence_def)
  then have "replace_fence json_fence (u @ fence @ w) = u @ fence @ w"
    by (intro replace_fence_absent [of "CHR ''j''"]) (auto simp: json_fence_def)
  moreover have "replace_fence fence (u @ fence @ w) = u @ replace_fence fence (fence @ w)"
    by (rule replace_fence_ahead) (use assms(1) blank_no_tick in \<open>auto simp: fence_def\<close>)
  moreover have "replace_fence fence (fence @ w) = replace_fence fence (drop_line_feed w)"
    by (rule replace_fence_opening) (simp add: fence_def)
  moreover have "replace_fence fence (drop_line_feed w) = drop_line_feed w"
    by (rule replace_fence_absent [of "CHR ''`''"])
      (use assms(2) set_drop_line_feed blank_no_tick in \<open>auto simp: fence_def\<close>)
  ultimately show ?thesis by simp
qed

lemma strip_fences_blank:
  assumes "\<forall>c\<in>set w. is_js_space c"
  shows "strip_fences w = w"
proof -
  have "replace_fence json_fence w = w"
    by (rule replace_fence_absent [of "CHR ''j''"]) (use assms blank_no_j in \<open>auto simp: json_fence_def\<close>)
  moreover have "replace_fence fence w = w"
    by (rule replace_fence_absent [of "CHR ''`''"]) (use assms blank_no_tick in \<open>auto simp: fence_def\<close>)
  ultimately show ?thesis by (simp add: strip_fences_def)
qed

lemma strip_fences_bracket:
  "strip_fences (s @ CHR ''['' # m @ CHR '']'' # t)
     = strip_fences s @ CHR ''['' # strip_fences m @ CHR '']'' # strip_fences t"
proof -
  have n: "CHR ''['' \<notin> set json_fence" "CHR '']'' \<notin> set json_fence"
          "CHR ''['' \<notin> set fence" "CHR '']'' \<notin> set fence"
          "CHR ''['' \<noteq> line_feed" "CHR '']'' \<noteq> line_feed"
    by (simp_all add: fence_def json_fence_def line_feed_def)
  show ?thesis
    unfolding strip_fences_def
    by (simp add: replace_fence_neutral [OF n(1) n(5)] replace_fence_neutral [OF n(2) n(6)]
        replace_fence_neutral [OF n(3) n(5)] replace_fence_neutral [OF n(4) n(6)])
qed

lemma cleanQuizText_fenced:
  assumes p: "p = a @ CHR ''['' # m @ CHR '']'' # b"
    and a: "\<forall>c\<in>set a. is_js_space c" and b: "\<forall>c\<in>set b. is_js_space c"
    and w: "\<forall>c\<in>set (w1 @ w2 @ w3). is_js_space c"
    and o: "opening = fence \<or> opening = json_fence"
  shows "cleanQuizText (opening @ w1 @ p @ w2 @ fence @ w3) = cleanQuizText p"
proof -
  let ?core = "CHR ''['' # strip_fences m @ [CHR '']'']"
  have br: "\<not> is_js_space (CHR ''['')" "\<not> is_js_space (CHR '']'')"
    by (simp_all add: is_js_space_def)
  have wa: "\<forall>c\<in>set (w1 @ a). is_js_space c" and bw: "\<forall>c\<in>set (b @ w2). is_js_space c"
    and w3: "\<forall>c\<in>set w3. is_js_space c"
    using a b w by auto
  have sa: "strip_fences a = a" using a by (rule strip_fences_blank)
  have sb: "strip_fences b = b" using b by (rule strip_fences_blank)
  have plain: "cleanQuizText p = ?core"
  proof -
    have "strip_fences p = a @ CHR ''['' # strip_fences m @ CHR '']'' # b"
      unfolding p by (simp add: strip_fences_bracket sa sb)
    then show ?thesis
      using trim_core [OF a b br] by (simp add: cleanQuizText_def strip_fences_def)
  qed
  have "opening @ w1 @ p @ w2 @ fence @ w3
        = (opening @ w1 @ a) @ CHR ''['' # m @ CHR '']'' # ((b @ w2) @ fence @ w3)"
    unfolding p by simp
  then have "strip_fences (opening @ w1 @ p @ w2 @ fence @ w3)
        = strip_fences (opening @ w1 @ a) @ CHR ''['' # strip_fences m
            @ CHR '']'' # strip_fences ((b @ w2) @ fence @ w3)"
    by (simp only: strip_fences_bracket)
  also have "strip_fences (opening @ w1 @ a) = drop_line_feed (w1 @ a)"
    unfolding strip_fences_def using clean_opening [OF wa o] by simp
  also have "strip_fences ((b @ w2) @ fence @ w3) = (b @ w2) @ drop_line_feed w3"
    unfolding strip_fences_def by (rule clean_closing [OF bw w3])
  finally have "strip_fences (opening @ w1 @ p @ w2 @ fence @ w3)
        = drop_line_feed (w1 @ a) @ CHR ''['' # strip_fences m
            @ CHR '']'' # ((b @ w2) @ drop_line_feed w3)" .
  moreover have "\<forall>c\<in>set (drop_line_feed (w1 @ a)). is_js_space c"
    using wa set_drop_line_feed by blast
  moreover have "\<forall>c\<in>set ((b @ w2) @ drop_line_feed w3). is_js_space c"
    using bw w3 set_drop_line_feed [of w3] by auto
  ultimately have "cleanQuizText (opening @ w1 @ p @ w2 @ fence @ w3) = ?core"
    using trim_core [of "drop_line_feed (w1 @ a)" "(b @ w2) @ drop_line_feed w3", OF _ _ br]
    by (simp add: cleanQuizText_def strip_fences_def)
  with plain show ?thesis by simp
qed

text \<open>
  The decoder is local: what it returns depends only on the text it has read. When it has
  read \<open>c\<close> and
  left \<open>r\<close>, it reads \<open>c\<close> again in front of any other rest \<open>u\<close>. A number is the one
  exception, because its lexeme ends where the digits end: there the new rest has to begin
  with the same character as the old one.
\<close>

lemma same_next_Cons: "same_next (z # y) (z # y')"
  by (simp add: same_next_def)

lemma same_next_append: "same_next u u' \<Longrightarrow> same_next (p @ u) (p @ u')"
  by (cases p) (auto simp: same_next_def)

lemma same_nextE:
  assumes "same_next u u'"
  obtains z y y' where "u = z # y" "u' = z # y'"
  using assms by (cases u; cases u') (auto simp: same_next_def)

lemma takeWhile_stop:
  assumes "takeWhile P (p @ z # y) = p"
  shows "(\<forall>c\<in>set p. P c) \<and> \<not> P z"
proof -
  have all: "\<forall>c\<in>set p. P c"
    using assms set_takeWhileD [of _ P "p @ z # y"] by metis
  have "\<not> P z"
  proof
    assume "P z"
    with all have "takeWhile P (p @ z # y) = p @ z # takeWhile P y"
      by (simp add: takeWhile_append2)
    with assms show False by simp
  qed
  with all show ?thesis by blast
qed

lemma digits1_local:
  assumes "digits1 (p @ u) = Some (p, u)" "same_next u u'"
  shows "digits1 (p @ u') = Some (p, u')"
proof -
  from assms(2) obtain z y y' where u: "u = z # y" "u' = z # y'" by (rule same_nextE)
  from assms(1) have t: "takeWhile is_digit (p @ z # y) = p" and ne: "p \<noteq> []"
    unfolding u by (auto simp: digits1_def Let_def split: if_splits)
  from takeWhile_stop [OF t] have a: "\<forall>c\<in>set p. is_digit c" "\<not> is_digit z" by blast+
  then have "takeWhile is_digit (p @ z # y') = p" "dropWhile is_digit (p @ z # y') = z # y'"
    by (simp_all add: takeWhile_append2 dropWhile_append2)
  with ne show ?thesis unfolding u by (simp add: digits1_def)
qed

lemma int_part_local:
  assumes "int_part (p @ u) = Some (p, u)" "same_next u u'"
  shows "int_part (p @ u') = Some (p, u')"
proof (cases p)
  case Nil
  with assms(1) int_part_split [of "p @ u" p u] show ?thesis by simp
next
  case (Cons d ds)
  show ?thesis
  proof (cases "d = CHR ''0''")
    case True
    with assms(1) Cons have "ds = []" by (auto simp: int_part_def)
    with True Cons show ?thesis by (simp add: int_part_def)
  next
    case False
    with assms(1) Cons have "digits1 (p @ u) = Some (p, u)" by (auto simp: int_part_def)
    then have "digits1 (p @ u') = Some (p, u')" using assms(2) by (rule digits1_local)
    with False Cons show ?thesis by (simp add: int_part_def)
  qed
qed

lemma frac_part_local:
  assumes "frac_part (p @ u) = Some (p, u)" "same_next u u'"
  shows "frac_part (p @ u') = Some (p, u')"
proof (cases p)
  case Nil
  from assms(2) obtain z y y' where u: "u = z # y" "u' = z # y'" by (rule same_nextE)
  from assms(1) Nil u have "z \<noteq> CHR ''.''"
    by (auto simp: frac_part_def dest: digits1_split)
  with Nil u show ?thesis by (simp add: frac_part_def)
next
  case (Cons d ds)
  from assms(1) Cons have d: "d = CHR ''.''"
    by (auto simp: frac_part_def split: if_splits)
  with assms(1) Cons have "digits1 (ds @ u) = Some (ds, u)"
    by (auto simp: frac_part_def)
  then have "digits1 (ds @ u') = Some (ds, u')" using assms(2) by (rule digits1_local)
  with d Cons show ?thesis by (simp add: frac_part_def)
qed

lemma exp_part_local:
  assumes "exp_part (p @ u) = Some (p, u)" "same_next u u'"
  shows "exp_part (p @ u') = Some (p, u')"
proof (cases p)
  case Nil
  from assms(2) obtain z y y' where u: "u = z # y" "u' = z # y'" by (rule same_nextE)
  from assms(1) Nil u have "\<not> (z = CHR ''e'' \<or> z = CHR ''E'')"
    by (auto simp: exp_part_def split: list.splits if_splits dest: digits1_split)
  with Nil u show ?thesis by (simp add: exp_part_def)
next
  case (Cons e es)
  from assms(1) Cons have e: "e = CHR ''e'' \<or> e = CHR ''E''"
    by (auto simp: exp_part_def split: if_splits)
  show ?thesis
  proof (cases es)
    case Nil
    with assms(1) Cons e show ?thesis
      by (auto simp: exp_part_def split: list.splits if_splits dest: digits1_split)
  next
    case es: (Cons g gs)
    show ?thesis
    proof (cases "g = CHR ''+'' \<or> g = CHR ''-''")
      case True
      with assms(1) Cons es e have "digits1 (gs @ u) = Some (gs, u)"
        by (auto simp: exp_part_def)
      then have "digits1 (gs @ u') = Some (gs, u')" using assms(2) by (rule digits1_local)
      with True Cons es e show ?thesis by (auto simp: exp_part_def)
    next
      case False
      with assms(1) Cons es e have "digits1 (es @ u) = Some (es, u)"
        by (auto simp: exp_part_def)
      then have "digits1 (es @ u') = Some (es, u')" using assms(2) by (rule digits1_local)
      with False Cons es e show ?thesis by (auto simp: exp_part_def)
    qed
  qed
qed


lemma number_token_local:
  assumes "number_token (t @ u) = Some (t, u)" "same_next u u'"
  shows "number_token (t @ u') = Some (t, u')"
proof -
  from number_token_split [OF assms(1)] obtain m t' where t: "t = m # t'" by (cases t) auto
  define sg where "sg = (if m = CHR ''-'' then [m] else [])"
  define body where "body = (if m = CHR ''-'' then t' else t)"
  have tb: "t = sg @ body" by (simp add: sg_def body_def t)
  have pre: "\<And>w. (case t @ w of [] \<Rightarrow> ([], t @ w)
                 | m # r \<Rightarrow> if m = CHR ''-'' then ([m], r) else ([], t @ w)) = (sg, body @ w)"
    by (simp add: t sg_def body_def)
  from assms(1) obtain ip s2 fp s3 ep where
    i: "int_part (body @ u) = Some (ip, s2)" and f: "frac_part s2 = Some (fp, s3)"
    and e: "exp_part s3 = Some (ep, u)" and c: "sg @ ip @ fp @ ep = t"
    unfolding number_token_def pre
    by (auto split: option.splits prod.splits)
  from int_part_split [OF i] frac_part_split [OF f] exp_part_split [OF e]
  have s3: "s3 = ep @ u" and s2: "s2 = fp @ ep @ u" and b: "body @ u = ip @ fp @ ep @ u"
    by simp_all
  from c tb have body: "body = ip @ fp @ ep" by simp
  have e': "exp_part (ep @ u') = Some (ep, u')"
    using e assms(2) unfolding s3 by (rule exp_part_local)
  have f': "frac_part (fp @ ep @ u') = Some (fp, ep @ u')"
    using f [unfolded s2 s3] same_next_append [OF assms(2)] by (rule frac_part_local)
  have "int_part (ip @ fp @ ep @ u') = Some (ip, fp @ ep @ u')"
    using i [unfolded body s2] same_next_append [OF same_next_append [OF assms(2)]]
    by (simp add: int_part_local)
  with f' e' c show ?thesis
    unfolding number_token_def pre body by simp
qed

lemma string_chars_local:
  "string_chars s = Some (k, r) \<Longrightarrow> s = c @ r \<Longrightarrow> string_chars (c @ u) = Some (k, u)"
proof (induction s arbitrary: k r c rule: length_induct)
  case (1 s)
  from 1(2) obtain x cs where s: "s = x # cs" by (cases s) auto
  have IH: "\<And>t k r c. length t < length s \<Longrightarrow> string_chars t = Some (k, r) \<Longrightarrow> t = c @ r
      \<Longrightarrow> string_chars (c @ u) = Some (k, u)"
    using 1(1) by blast
  have split_rest: "\<And>t k'. string_chars t = Some (k', r) \<Longrightarrow> \<exists>c'. t = c' @ r"
    using string_chars_suffix by (auto simp: suffix_def)
  show ?case
  proof (cases "x = dquote")
    case True
    with 1(2) s have "r = cs" "k = []" by simp_all
    with 1(3) s have "c = [x]" by simp
    with True \<open>k = []\<close> show ?thesis by simp
  next
    case nq: False
    show ?thesis
    proof (cases "x = backslash")
      case True
      from 1(2) s True nq obtain e r1 where cs: "cs = e # r1" by (cases cs) auto
      show ?thesis
      proof (cases "e = CHR ''u''")
        case u: True
        from 1(2) s True nq cs u obtain h1 h2 h3 h4 r2 where r1: "r1 = h1 # h2 # h3 # h4 # r2"
          by (auto split: list.splits)
        from 1(2) s True nq cs u r1 obtain a b c' d k2 where
          hx: "hex_val h1 = Some a" "hex_val h2 = Some b" "hex_val h3 = Some c'" "hex_val h4 = Some d"
          and k2: "string_chars r2 = Some (k2, r)"
          and k: "k = (((a * 16 + b) * 16 + c') * 16 + d) # k2"
          by (auto simp: unit_cons_def split: option.splits)
        from split_rest [OF k2] obtain c2 where c2: "r2 = c2 @ r" by blast
        with 1(3) s cs r1 have c: "c = x # e # h1 # h2 # h3 # h4 # c2" by simp
        have "string_chars (c2 @ u) = Some (k2, u)"
          using IH [OF _ k2 c2] s cs r1 by simp
        with c True nq u hx k show ?thesis by (simp add: unit_cons_def)
      next
        case nu: False
        from 1(2) s True nq cs nu obtain v k1 where
          ev: "escape_unit e = Some v" and k1: "string_chars r1 = Some (k1, r)" and k: "k = v # k1"
          by (auto simp: unit_cons_def split: option.splits)
        from split_rest [OF k1] obtain c1 where c1: "r1 = c1 @ r" by blast
        with 1(3) s cs have c: "c = x # e # c1" by simp
        have "string_chars (c1 @ u) = Some (k1, u)"
          using IH [OF _ k1 c1] s cs by simp
        with c True nq nu ev k show ?thesis by (simp add: unit_cons_def)
      qed
    next
      case nb: False
      from 1(2) s nq nb obtain k1 where
        pl: "\<not> (of_char x :: nat) < 32" and k1: "string_chars cs = Some (k1, r)"
        and k: "k = of_char x # k1"
        by (auto simp: unit_cons_def split: if_splits)
      from split_rest [OF k1] obtain c1 where c1: "cs = c1 @ r" by blast
      with 1(3) s have c: "c = x # c1" by simp
      have "string_chars (c1 @ u) = Some (k1, u)"
        using IH [OF _ k1 c1] s by simp
      with c nq nb pl k show ?thesis by (simp add: unit_cons_def)
    qed
  qed
qed

lemma skip_ws_decomp:
  obtains w where "s = w @ skip_ws s" "\<forall>c\<in>set w. is_json_ws c"
proof
  show "s = takeWhile is_json_ws s @ skip_ws s" by (simp add: skip_ws_def)
  show "\<forall>c\<in>set (takeWhile is_json_ws s). is_json_ws c" by (auto dest: set_takeWhileD)
qed

lemma skip_ws_hd: "skip_ws s = d # r \<Longrightarrow> \<not> is_json_ws d"
  by (metis skip_ws_def hd_dropWhile list.sel(1) list.distinct(1))

lemma skip_ws_blank:
  "\<forall>c\<in>set w. is_json_ws c \<Longrightarrow> \<not> is_json_ws x \<Longrightarrow> skip_ws (w @ x # t) = x # t"
  by (simp add: skip_ws_def dropWhile_append2)

lemma skip_ws_blank_Nil: "\<forall>c\<in>set w. is_json_ws c \<Longrightarrow> skip_ws w = []"
  by (simp add: skip_ws_def)

lemma skip_ws_parts:
  assumes "skip_ws s = d # r"
  obtains w where "s = w @ d # r" "\<forall>c\<in>set w. is_json_ws c" "\<not> is_json_ws d"
  using skip_ws_split [OF assms] skip_ws_hd [OF assms] by blast

lemma number_token_start:
  assumes "number_token s = Some (t, r)"
  obtains m rest where "s = m # rest" "m = CHR ''-'' \<or> is_digit m"
proof -
  from number_token_split [OF assms] have "s \<noteq> []" by auto
  then obtain m rest where s: "s = m # rest" by (cases s) auto
  have "m = CHR ''-'' \<or> is_digit m"
  proof (rule ccontr)
    assume n: "\<not> (m = CHR ''-'' \<or> is_digit m)"
    then have "m \<noteq> CHR ''0''" by (auto simp: is_digit_def)
    with n s have "int_part s = None" by (simp add: int_part_def digits1_def)
    with n s assms show False by (simp add: number_token_def)
  qed
  with s that show ?thesis by blast
qed

lemma parse_value_start:
  assumes "parse_value s = Some (v, r)"
  obtains m rest where "s = m # rest" "\<not> is_json_ws m" "m \<noteq> CHR ''`''"
proof -
  from assms obtain m rest where s: "s = m # rest" by (cases s) (auto simp: parse_value.simps)
  have "\<not> is_json_ws m \<and> m \<noteq> CHR ''`''"
  proof (cases "m = CHR ''['' \<or> m = CHR ''{'' \<or> m = dquote")
    case True
    then show ?thesis by (auto simp: is_json_ws_def dquote_def)
  next
    case False
    with assms s have "(prefix ''true'' s) \<or> (prefix ''false'' s) \<or> (prefix ''null'' s)
        \<or> (\<exists>t. number_token s = Some (t, r))"
      by (auto simp: parse_value.simps split: if_splits)
    then show ?thesis
    proof (elim disjE exE)
      fix t assume "number_token s = Some (t, r)"
      then obtain m' rest' where "s = m' # rest'" "m' = CHR ''-'' \<or> is_digit m'"
        by (rule number_token_start)
      with s show ?thesis by (auto simp: is_json_ws_def is_digit_def)
    qed (use s in \<open>auto simp: is_json_ws_def\<close>)
  qed
  with s that show ?thesis by blast
qed

lemma parse_elements_cases:
  assumes "parse_elements s = Some (xs, r)"
  obtains (more) v r1 r' xs' where
      "parse_value (skip_ws s) = Some (v, r1)" "skip_ws r1 = CHR '','' # r'"
      "parse_elements r' = Some (xs', r)" "xs = v # xs'"
  | (last) v r1 where
      "parse_value (skip_ws s) = Some (v, r1)" "skip_ws r1 = CHR '']'' # r" "xs = [v]"
proof -
  from assms obtain v r1 where pv: "parse_value (skip_ws s) = Some (v, r1)"
    by (subst (asm) parse_elements_unguarded) (auto split: option.splits)
  from assms pv obtain d r' where sk: "skip_ws r1 = d # r'"
    by (subst (asm) parse_elements_unguarded) (auto split: list.splits)
  show ?thesis
  proof (cases "d = CHR '',''")
    case True
    with assms pv sk obtain xs' where "parse_elements r' = Some (xs', r)" "xs = v # xs'"
      by (subst (asm) parse_elements_unguarded) auto
    with pv sk True more show ?thesis by blast
  next
    case False
    with assms pv sk have "d = CHR '']''" "r = r'" "xs = [v]"
      by (subst (asm) parse_elements_unguarded, auto split: if_splits)+
    with pv sk last show ?thesis by blast
  qed
qed

lemma parse_elements_more:
  "parse_value (skip_ws s) = Some (v, r1) \<Longrightarrow> skip_ws r1 = CHR '','' # r' \<Longrightarrow>
   parse_elements r' = Some (xs', r) \<Longrightarrow> parse_elements s = Some (v # xs', r)"
  by (subst parse_elements_unguarded) simp

lemma parse_elements_last:
  "parse_value (skip_ws s) = Some (v, r1) \<Longrightarrow> skip_ws r1 = CHR '']'' # r \<Longrightarrow>
   parse_elements s = Some ([v], r)"
  by (subst parse_elements_unguarded) simp

lemma parse_members_cases:
  assumes "parse_members s = Some (kvs, r)"
  obtains (more) r0 k r1 r2 v r3 r4 kvs' where
      "skip_ws s = dquote # r0" "string_chars r0 = Some (k, r1)" "skip_ws r1 = CHR '':'' # r2"
      "parse_value (skip_ws r2) = Some (v, r3)" "skip_ws r3 = CHR '','' # r4"
      "parse_members r4 = Some (kvs', r)" "kvs = (k, v) # kvs'"
  | (last) r0 k r1 r2 v r3 where
      "skip_ws s = dquote # r0" "string_chars r0 = Some (k, r1)" "skip_ws r1 = CHR '':'' # r2"
      "parse_value (skip_ws r2) = Some (v, r3)" "skip_ws r3 = CHR ''}'' # r" "kvs = [(k, v)]"
proof -
  from assms obtain q r0 where s0: "skip_ws s = q # r0"
    by (subst (asm) parse_members_unguarded) (auto split: list.splits)
  with assms have q: "q = dquote"
    by (subst (asm) parse_members_unguarded) (auto split: if_splits)
  from assms s0 q obtain k r1 where sc: "string_chars r0 = Some (k, r1)"
    by (subst (asm) parse_members_unguarded) (auto split: option.splits)
  from assms s0 q sc obtain col r2 where s1: "skip_ws r1 = col # r2"
    by (subst (asm) parse_members_unguarded) (auto split: list.splits)
  from assms s0 q sc s1 have col: "col = CHR '':''"
    by (subst (asm) parse_members_unguarded) (auto split: if_splits)
  from assms s0 q sc s1 col obtain v r3 where pv: "parse_value (skip_ws r2) = Some (v, r3)"
    by (subst (asm) parse_members_unguarded) (auto split: option.splits)
  from assms s0 q sc s1 col pv obtain d r4 where s3: "skip_ws r3 = d # r4"
    by (subst (asm) parse_members_unguarded) (auto split: list.splits)
  show ?thesis
  proof (cases "d = CHR '',''")
    case True
    with assms s0 q sc s1 col pv s3 obtain kvs' where
      "parse_members r4 = Some (kvs', r)" "kvs = (k, v) # kvs'"
      by (subst (asm) parse_members_unguarded) auto
    with s0 q sc s1 col pv s3 True more show ?thesis by blast
  next
    case False
    with assms s0 q sc s1 col pv s3 have "d = CHR ''}''" "r = r4" "kvs = [(k, v)]"
      by (subst (asm) parse_members_unguarded, auto split: if_splits)+
    with s0 q sc s1 col pv s3 last show ?thesis by blast
  qed
qed

lemma parse_members_more:
  "skip_ws s = dquote # r0 \<Longrightarrow> string_chars r0 = Some (k, r1) \<Longrightarrow>
   skip_ws r1 = CHR '':'' # r2 \<Longrightarrow> parse_value (skip_ws r2) = Some (v, r3) \<Longrightarrow>
   skip_ws r3 = CHR '','' # r4 \<Longrightarrow> parse_members r4 = Some (kvs', r) \<Longrightarrow>
   parse_members s = Some ((k, v) # kvs', r)"
  by (subst parse_members_unguarded) simp

lemma parse_members_last:
  "skip_ws s = dquote # r0 \<Longrightarrow> string_chars r0 = Some (k, r1) \<Longrightarrow>
   skip_ws r1 = CHR '':'' # r2 \<Longrightarrow> parse_value (skip_ws r2) = Some (v, r3) \<Longrightarrow>
   skip_ws r3 = CHR ''}'' # r \<Longrightarrow> parse_members s = Some ([(k, v)], r)"
  by (subst parse_members_unguarded) simp

lemma parse_value_cases:
  assumes "parse_value s = Some (v, r)"
  obtains (ea) r0 where "s = CHR ''['' # r0" "skip_ws r0 = CHR '']'' # r" "v = JArr []"
  | (arr) r0 d r' xs where "s = CHR ''['' # r0" "skip_ws r0 = d # r'" "d \<noteq> CHR '']''"
      "parse_elements (d # r') = Some (xs, r)" "v = JArr xs"
  | (eo) r0 where "s = CHR ''{'' # r0" "skip_ws r0 = CHR ''}'' # r" "v = JObj []"
  | (obj) r0 d r' kvs where "s = CHR ''{'' # r0" "skip_ws r0 = d # r'" "d \<noteq> CHR ''}''"
      "parse_members (d # r') = Some (kvs, r)" "v = JObj kvs"
  | (str) r0 k where "s = dquote # r0" "string_chars r0 = Some (k, r)" "v = JStr k"
  | (true) "s = ''true'' @ r" "v = JBool True"
  | (false) "s = ''false'' @ r" "v = JBool False"
  | (null) "s = ''null'' @ r" "v = JNull"
  | (num) t where "number_token s = Some (t, r)" "v = JNum t"
      "\<not> prefix ''true'' s" "\<not> prefix ''false'' s" "\<not> prefix ''null'' s"
      "hd s \<noteq> CHR ''[''" "hd s \<noteq> CHR ''{''" "hd s \<noteq> dquote"
proof -
  from assms obtain c r0 where s: "s = c # r0" by (cases s) (auto simp: parse_value.simps)
  consider (a) "c = CHR ''[''" | (o) "c \<noteq> CHR ''[''" "c = CHR ''{''"
    | (t) "c \<noteq> CHR ''[''" "c \<noteq> CHR ''{''" "c = dquote"
    | (x) "c \<noteq> CHR ''[''" "c \<noteq> CHR ''{''" "c \<noteq> dquote" by blast
  then show ?thesis
  proof cases
    case a
    from assms s a obtain d r' where sk: "skip_ws r0 = d # r'"
      by (cases "skip_ws r0") (auto simp: parse_value.simps)
    show ?thesis
    proof (cases "d = CHR '']''")
      case True
      with assms s a sk have "r = r'" "v = JArr []" by (auto simp: parse_value.simps)
      with s a sk True ea show ?thesis by blast
    next
      case False
      with assms s a sk obtain xs where "parse_elements (d # r') = Some (xs, r)" "v = JArr xs"
        by (auto simp: parse_value.simps)
      with s a sk False arr show ?thesis by blast
    qed
  next
    case o
    from assms s o obtain d r' where sk: "skip_ws r0 = d # r'"
      by (cases "skip_ws r0") (auto simp: parse_value.simps)
    show ?thesis
    proof (cases "d = CHR ''}''")
      case True
      with assms s o sk have "r = r'" "v = JObj []" by (auto simp: parse_value.simps)
      with s o sk True eo show ?thesis by blast
    next
      case False
      with assms s o sk obtain kvs where "parse_members (d # r') = Some (kvs, r)" "v = JObj kvs"
        by (auto simp: parse_value.simps)
      with s o sk False obj show ?thesis by blast
    qed
  next
    case t
    with assms s obtain k where "string_chars r0 = Some (k, r)" "v = JStr k"
      by (auto simp: parse_value.simps)
    with s t str show ?thesis by blast
  next
    case x
    show ?thesis
    proof (cases "prefix ''true'' s")
      case True
      with assms s x have "r = drop 4 s" "v = JBool True" by (auto simp: parse_value.simps)
      moreover from True have "s = ''true'' @ drop 4 s" by (auto simp: prefix_def)
      ultimately show ?thesis using true by simp
    next
      case nt: False
      show ?thesis
      proof (cases "prefix ''false'' s")
        case True
        with assms s x nt have "r = drop 5 s" "v = JBool False" by (auto simp: parse_value.simps)
        moreover from True have "s = ''false'' @ drop 5 s" by (auto simp: prefix_def)
        ultimately show ?thesis using false by simp
      next
        case nf: False
        show ?thesis
        proof (cases "prefix ''null'' s")
          case True
          with assms s x nt nf have "r = drop 4 s" "v = JNull" by (auto simp: parse_value.simps)
          moreover from True have "s = ''null'' @ drop 4 s" by (auto simp: prefix_def)
          ultimately show ?thesis using null by simp
        next
          case nn: False
          with assms s x nt nf obtain t where "number_token s = Some (t, r)" "v = JNum t"
            by (auto simp: parse_value.simps)
          with s x nt nf nn num show ?thesis by simp
        qed
      qed
    qed
  qed
qed

lemma parse_value_empty_array:
  "skip_ws r0 = CHR '']'' # r \<Longrightarrow> parse_value (CHR ''['' # r0) = Some (JArr [], r)"
  by (simp add: parse_value.simps)

lemma parse_value_array:
  "skip_ws r0 = d # r' \<Longrightarrow> d \<noteq> CHR '']'' \<Longrightarrow> parse_elements (d # r') = Some (xs, r) \<Longrightarrow>
   parse_value (CHR ''['' # r0) = Some (JArr xs, r)"
  by (simp add: parse_value.simps)

lemma parse_value_empty_object:
  "skip_ws r0 = CHR ''}'' # r \<Longrightarrow> parse_value (CHR ''{'' # r0) = Some (JObj [], r)"
  by (simp add: parse_value.simps)

lemma parse_value_object:
  "skip_ws r0 = d # r' \<Longrightarrow> d \<noteq> CHR ''}'' \<Longrightarrow> parse_members (d # r') = Some (kvs, r) \<Longrightarrow>
   parse_value (CHR ''{'' # r0) = Some (JObj kvs, r)"
  by (simp add: parse_value.simps)

lemma parse_value_text:
  "string_chars r0 = Some (k, r) \<Longrightarrow> parse_value (dquote # r0) = Some (JStr k, r)"
  by (simp add: parse_value.simps dquote_def)

lemma parse_value_true: "parse_value (''true'' @ r) = Some (JBool True, r)"
  by (simp add: parse_value.simps dquote_def)

lemma parse_value_false: "parse_value (''false'' @ r) = Some (JBool False, r)"
  by (simp add: parse_value.simps dquote_def)

lemma parse_value_null: "parse_value (''null'' @ r) = Some (JNull, r)"
  by (simp add: parse_value.simps dquote_def)

lemma not_digit: "\<not> is_digit (CHR ''['')" "\<not> is_digit (CHR ''{'')" "\<not> is_digit dquote"
  "\<not> is_digit (CHR ''t'')" "\<not> is_digit (CHR ''f'')" "\<not> is_digit (CHR ''n'')"
  by (simp_all add: is_digit_def dquote_def)

lemma parse_value_number:
  assumes "number_token s = Some (t, r)"
  shows "parse_value s = Some (JNum t, r)"
proof -
  from assms obtain m rest where s: "s = m # rest" and m: "m = CHR ''-'' \<or> is_digit m"
    by (rule number_token_start)
  from m not_digit have "m \<noteq> CHR ''[''" "m \<noteq> CHR ''{''" "m \<noteq> dquote"
    "m \<noteq> CHR ''t''" "m \<noteq> CHR ''f''" "m \<noteq> CHR ''n''"
    by (auto simp: dquote_def)
  with assms s show ?thesis by (simp add: parse_value.simps)
qed

lemma closed_by_split:
  assumes "closed_by b s r"
  obtains c where "s = c @ r" "c \<noteq> []"
proof -
  from assms obtain m where "s = m @ b # r" by (auto simp: closed_by_def)
  then have "s = (m @ [b]) @ r" "m @ [b] \<noteq> []" by simp_all
  with that show ?thesis by blast
qed

lemma consumed_split:
  assumes "consumed s r"
  obtains c where "s = c @ r" "c \<noteq> []"
  using assms by (auto simp: consumed_def)

lemma parse_local:
  "\<forall>v r c u. parse_value s = Some (v, r) \<longrightarrow> s = c @ r \<longrightarrow>
      ((\<exists>t. v = JNum t) \<longrightarrow> same_next r u) \<longrightarrow> parse_value (c @ u) = Some (v, u)"
  "\<forall>xs r c u. parse_elements s1 = Some (xs, r) \<longrightarrow> s1 = c @ r \<longrightarrow>
      parse_elements (c @ u) = Some (xs, u)"
  "\<forall>kvs r c u. parse_members s2 = Some (kvs, r) \<longrightarrow> s2 = c @ r \<longrightarrow>
      parse_members (c @ u) = Some (kvs, u)"
proof (induction s and s1 and s2 rule: parse_value_parse_elements_parse_members.induct)
  case (1 s)
  show ?case
  proof (intro allI impI)
    fix v r c u
    assume pv: "parse_value s = Some (v, r)" and sc: "s = c @ r"
      and nx: "(\<exists>t. v = JNum t) \<longrightarrow> same_next r u"
    from pv show "parse_value (c @ u) = Some (v, u)"
    proof (cases rule: parse_value_cases)
      case (ea r0)
      from ea(2) obtain w where w: "r0 = w @ CHR '']'' # r" "\<forall>c\<in>set w. is_json_ws c"
        "\<not> is_json_ws (CHR '']'')" by (rule skip_ws_parts)
      with sc ea(1) have c: "c = CHR ''['' # w @ [CHR '']'']" by simp
      have "skip_ws (w @ CHR '']'' # u) = CHR '']'' # u" using w(2,3) by (rule skip_ws_blank)
      then show ?thesis unfolding c ea(3) using parse_value_empty_array [of "w @ CHR '']'' # u" u]
        by simp
    next
      case (arr r0 d r' xs)
      from arr(2) obtain w where w: "r0 = w @ d # r'" "\<forall>c\<in>set w. is_json_ws c"
        "\<not> is_json_ws d" by (rule skip_ws_parts)
      from parse_shape(2) [of "d # r'"] arr(4) have "closed_by (CHR '']'') (d # r') r" by blast
      then obtain c2 where c2: "d # r' = c2 @ r" "c2 \<noteq> []" by (rule closed_by_split)
      then obtain t2 where t2: "c2 = d # t2" by (cases c2) auto
      from sc arr(1) w(1) c2(1) have c: "c = CHR ''['' # w @ c2" by simp
      from 1(1) [OF arr(1) refl arr(2) arr(3)] arr(4) c2(1)
      have "parse_elements (c2 @ u) = Some (xs, u)" by blast
      then have e: "parse_elements (d # t2 @ u) = Some (xs, u)" by (simp add: t2)
      have "skip_ws (w @ d # t2 @ u) = d # t2 @ u" using w(2,3) by (rule skip_ws_blank)
      from parse_value_array [OF this arr(3) e] show ?thesis
        unfolding c arr(5) t2 by simp
    next
      case (eo r0)
      from eo(2) obtain w where w: "r0 = w @ CHR ''}'' # r" "\<forall>c\<in>set w. is_json_ws c"
        "\<not> is_json_ws (CHR ''}'')" by (rule skip_ws_parts)
      with sc eo(1) have c: "c = CHR ''{'' # w @ [CHR ''}'']" by simp
      have "skip_ws (w @ CHR ''}'' # u) = CHR ''}'' # u" using w(2,3) by (rule skip_ws_blank)
      then show ?thesis unfolding c eo(3) using parse_value_empty_object [of "w @ CHR ''}'' # u" u]
        by simp
    next
      case (obj r0 d r' kvs)
      from obj(2) obtain w where w: "r0 = w @ d # r'" "\<forall>c\<in>set w. is_json_ws c"
        "\<not> is_json_ws d" by (rule skip_ws_parts)
      from parse_shape(3) [of "d # r'"] obj(4) have "closed_by (CHR ''}'') (d # r') r" by blast
      then obtain c2 where c2: "d # r' = c2 @ r" "c2 \<noteq> []" by (rule closed_by_split)
      then obtain t2 where t2: "c2 = d # t2" by (cases c2) auto
      from sc obj(1) w(1) c2(1) have c: "c = CHR ''{'' # w @ c2" by simp
      have ne: "CHR ''['' \<noteq> CHR ''{''" by simp
      from 1(2) [OF obj(1) _ refl obj(2) obj(3)] obj(4) c2(1)
      have "parse_members (c2 @ u) = Some (kvs, u)" by simp
      then have e: "parse_members (d # t2 @ u) = Some (kvs, u)" by (simp add: t2)
      have "skip_ws (w @ d # t2 @ u) = d # t2 @ u" using w(2,3) by (rule skip_ws_blank)
      from parse_value_object [OF this obj(3) e] show ?thesis
        unfolding c obj(5) t2 by simp
    next
      case (str r0 k)
      from string_chars_suffix [OF str(2)] obtain c0 where c0: "r0 = c0 @ r"
        by (auto simp: suffix_def)
      with sc str(1) have c: "c = dquote # c0" by simp
      from string_chars_local [OF str(2) c0] have "string_chars (c0 @ u) = Some (k, u)" .
      from parse_value_text [OF this] show ?thesis unfolding c str(3) by simp
    next
      case true
      with sc have c: "c = ''true''" by simp
      show ?thesis unfolding c true(2) by (rule parse_value_true)
    next
      case false
      with sc have c: "c = ''false''" by simp
      show ?thesis unfolding c false(2) by (rule parse_value_false)
    next
      case null
      with sc have c: "c = ''null''" by simp
      show ?thesis unfolding c null(2) by (rule parse_value_null)
    next
      case (num t)
      from number_token_split [OF num(1)] sc have c: "c = t" by simp
      from num(1) sc c have "number_token (t @ r) = Some (t, r)" by simp
      moreover from nx num(2) have "same_next r u" by blast
      ultimately have "number_token (t @ u) = Some (t, u)" by (rule number_token_local)
      from parse_value_number [OF this] show ?thesis unfolding c num(2) .
    qed
  qed
next
  case (2 s)
  show ?case
  proof (intro allI impI)
    fix xs r c u
    assume pe: "parse_elements s = Some (xs, r)" and sc: "s = c @ r"
    obtain w0 where w0: "s = w0 @ skip_ws s" "\<forall>c\<in>set w0. is_json_ws c" by (rule skip_ws_decomp)
    have step: "parse_elements (c @ u) = Some (xs, u)"
      if pv: "parse_value (skip_ws s) = Some (v, r1)" and sk: "skip_ws r1 = d # r'"
        and tail: "r' = c2 @ r" and rest: "parse_elements (c2 @ u) = Some (xs', u) \<and> d = CHR '','' \<and> xs = v # xs'
            \<or> c2 = [] \<and> d = CHR '']'' \<and> xs = [v]"
      for v r1 d r' c2 xs'
    proof -
      from sk obtain w where w: "r1 = w @ d # r'" "\<forall>c\<in>set w. is_json_ws c" "\<not> is_json_ws d"
        by (rule skip_ws_parts)
      from parse_shape(1) [of "skip_ws s"] pv have "consumed (skip_ws s) r1" by blast
      then obtain c1 where c1: "skip_ws s = c1 @ r1" "c1 \<noteq> []" by (rule consumed_split)
      from pv obtain m rest' where m: "skip_ws s = m # rest'" "\<not> is_json_ws m"
        by (rule parse_value_start)
      with c1 obtain t1 where t1: "c1 = m # t1" by (cases c1) auto
      from sc w0(1) c1(1) w(1) tail have c: "c = w0 @ c1 @ w @ d # c2" by simp
      have nx: "same_next r1 (w @ d # c2 @ u)"
        unfolding w(1) by (cases w) (auto simp: same_next_def)
      from 2(1) pv c1(1) nx have v': "parse_value (c1 @ w @ d # c2 @ u) = Some (v, w @ d # c2 @ u)"
        by blast
      have s': "skip_ws (c @ u) = c1 @ w @ d # c2 @ u"
        unfolding c t1 using skip_ws_blank [OF w0(2) m(2)] by simp
      have k': "skip_ws (w @ d # c2 @ u) = d # c2 @ u" using w(2,3) by (rule skip_ws_blank)
      from rest show ?thesis
      proof (elim disjE conjE)
        assume "parse_elements (c2 @ u) = Some (xs', u)" "d = CHR '',''" "xs = v # xs'"
        with parse_elements_more [of "c @ u" v "w @ d # c2 @ u" "c2 @ u" xs' u] v' s' k'
        show ?thesis by simp
      next
        assume "c2 = []" "d = CHR '']''" "xs = [v]"
        with parse_elements_last [of "c @ u" v "w @ d # c2 @ u" u] v' s' k'
        show ?thesis by simp
      qed
    qed
    from pe show "parse_elements (c @ u) = Some (xs, u)"
    proof (cases rule: parse_elements_cases)
      case (more v r1 r' xs')
      from parse_shape(2) [of r'] more(3) have "closed_by (CHR '']'') r' r" by blast
      then obtain c2 where c2: "r' = c2 @ r" by (rule closed_by_split)
      have len: "length r1 < length s"
        using parse_value_shorter [OF more(1)] length_skip_ws [of s] by simp
      from 2(2) [OF more(1) refl len more(2) refl] more(3) c2
      have "parse_elements (c2 @ u) = Some (xs', u)" by blast
      with step [OF more(1) more(2) c2] more(4) show ?thesis by blast
    next
      case (last v r1)
      from step [OF last(1) last(2), of "[]"] last(3) show ?thesis by simp
    qed
  qed
next
  case (3 s)
  show ?case
  proof (intro allI impI)
    fix kvs r c u
    assume pm: "parse_members s = Some (kvs, r)" and sc: "s = c @ r"
    have step: "parse_members (c @ u) = Some (kvs, u)"
      if s0: "skip_ws s = dquote # r0" and k: "string_chars r0 = Some (k, r1)"
        and s1: "skip_ws r1 = CHR '':'' # r2" and pv: "parse_value (skip_ws r2) = Some (v, r3)"
        and s3: "skip_ws r3 = d # r4" and tail: "r4 = c4 @ r"
        and rest: "parse_members (c4 @ u) = Some (kvs', u) \<and> d = CHR '','' \<and> kvs = (k, v) # kvs'
            \<or> c4 = [] \<and> d = CHR ''}'' \<and> kvs = [(k, v)]"
      for r0 k r1 r2 v r3 d r4 c4 kvs'
    proof -
      from s0 obtain w0 where w0: "s = w0 @ dquote # r0" "\<forall>c\<in>set w0. is_json_ws c"
        "\<not> is_json_ws dquote" by (rule skip_ws_parts)
      from string_chars_suffix [OF k] obtain c0 where c0: "r0 = c0 @ r1" by (auto simp: suffix_def)
      from s1 obtain w1 where w1: "r1 = w1 @ CHR '':'' # r2" "\<forall>c\<in>set w1. is_json_ws c"
        "\<not> is_json_ws (CHR '':'')" by (rule skip_ws_parts)
      obtain w2 where w2: "r2 = w2 @ skip_ws r2" "\<forall>c\<in>set w2. is_json_ws c"
        by (rule skip_ws_decomp)
      from parse_shape(1) [of "skip_ws r2"] pv have "consumed (skip_ws r2) r3" by blast
      then obtain c3 where c3: "skip_ws r2 = c3 @ r3" "c3 \<noteq> []" by (rule consumed_split)
      from pv obtain m rest' where m: "skip_ws r2 = m # rest'" "\<not> is_json_ws m"
        by (rule parse_value_start)
      with c3 obtain t3 where t3: "c3 = m # t3" by (cases c3) auto
      from s3 obtain w3 where w3: "r3 = w3 @ d # r4" "\<forall>c\<in>set w3. is_json_ws c"
        "\<not> is_json_ws d" by (rule skip_ws_parts)
      have "s = (w0 @ dquote # c0 @ w1 @ CHR '':'' # w2 @ c3 @ w3 @ d # c4) @ r"
        using w0(1) c0 w1(1) w2(1) c3(1) w3(1) tail by simp
      with sc have c: "c = w0 @ dquote # c0 @ w1 @ CHR '':'' # w2 @ c3 @ w3 @ d # c4" by simp
      let ?u3 = "w3 @ d # c4 @ u"
      let ?u2 = "w2 @ c3 @ ?u3"
      let ?u1 = "w1 @ CHR '':'' # ?u2"
      have a0: "skip_ws (c @ u) = dquote # c0 @ ?u1"
        unfolding c using skip_ws_blank [OF w0(2,3)] by simp
      have a1: "string_chars (c0 @ ?u1) = Some (k, ?u1)"
        using string_chars_local [OF k c0] .
      have a2: "skip_ws ?u1 = CHR '':'' # ?u2" using w1(2,3) by (rule skip_ws_blank)
      have a3: "skip_ws ?u2 = c3 @ ?u3"
        unfolding t3 using skip_ws_blank [OF w2(2) m(2)] by simp
      have nx: "same_next r3 ?u3" unfolding w3(1) by (cases w3) (auto simp: same_next_def)
      from 3(1) [OF s0 _ k refl s1 _] pv c3(1) nx
      have a4: "parse_value (c3 @ ?u3) = Some (v, ?u3)" by simp
      have a5: "skip_ws ?u3 = d # c4 @ u" using w3(2,3) by (rule skip_ws_blank)
      from rest show ?thesis
      proof (elim disjE conjE)
        assume "parse_members (c4 @ u) = Some (kvs', u)" "d = CHR '',''" "kvs = (k, v) # kvs'"
        with parse_members_more [of "c @ u" "c0 @ ?u1" k ?u1 ?u2 v ?u3 "c4 @ u" kvs' u]
          a0 a1 a2 a3 a4 a5
        show ?thesis by simp
      next
        assume "c4 = []" "d = CHR ''}''" "kvs = [(k, v)]"
        with parse_members_last [of "c @ u" "c0 @ ?u1" k ?u1 ?u2 v ?u3 u]
          a0 a1 a2 a3 a4 a5
        show ?thesis by simp
      qed
    qed
    from pm show "parse_members (c @ u) = Some (kvs, u)"
    proof (cases rule: parse_members_cases)
      case (more r0 k r1 r2 v r3 r4 kvs')
      from parse_shape(3) [of r4] more(6) have "closed_by (CHR ''}'') r4 r" by blast
      then obtain c4 where c4: "r4 = c4 @ r" by (rule closed_by_split)
      have len: "length r3 < length s"
      proof -
        have "length r3 < length (skip_ws r2)" using more(4) by (rule parse_value_shorter)
        also have "\<dots> \<le> length r2" by (rule length_skip_ws)
        also have "\<dots> \<le> length (skip_ws r1)" using more(3) by simp
        also have "\<dots> \<le> length r1" by (rule length_skip_ws)
        also have "\<dots> \<le> length r0" using string_chars_shorter [OF more(2)] by simp
        also have "\<dots> \<le> length (skip_ws s)" using more(1) by simp
        also have "\<dots> \<le> length s" by (rule length_skip_ws)
        finally show ?thesis .
      qed
      from 3(2) [OF more(1) _ more(2) refl more(3) _ more(4) refl len more(5) refl] more(6) c4
      have "parse_members (c4 @ u) = Some (kvs', u)" by simp
      with step [OF more(1) more(2) more(3) more(4) more(5) c4] more(7) show ?thesis by blast
    next
      case (last r0 k r1 r2 v r3)
      from step [OF last(1) last(2) last(3) last(4) last(5), of "[]"] last(6) show ?thesis by simp
    qed
  qed
qed


lemma JSON_parse_array_parts:
  assumes "JSON_parse p = Some (JArr xs)"
  obtains a m b where "p = a @ CHR ''['' # m @ CHR '']'' # b"
    "\<forall>c\<in>set a. is_json_ws c" "\<forall>c\<in>set b. is_json_ws c"
    "parse_value (CHR ''['' # m @ [CHR '']'']) = Some (JArr xs, [])"
proof -
  from assms obtain r where pv: "parse_value (skip_ws p) = Some (JArr xs, r)" and r: "skip_ws r = []"
    by (auto simp: JSON_parse_def split: option.splits if_splits)
  from parse_shape(1) [of "skip_ws p"] pv obtain m where m: "skip_ws p = CHR ''['' # m @ CHR '']'' # r"
    by blast
  obtain a where a: "p = a @ skip_ws p" "\<forall>c\<in>set a. is_json_ws c" by (rule skip_ws_decomp)
  from r have b: "\<forall>c\<in>set r. is_json_ws c" by (simp add: skip_ws_def dropWhile_eq_Nil_conv)
  from m have "skip_ws p = (CHR ''['' # m @ [CHR '']'']) @ r" by simp
  with parse_local(1) [of "skip_ws p"] pv
  have "parse_value ((CHR ''['' # m @ [CHR '']'']) @ []) = Some (JArr xs, [])" by blast
  then have "parse_value (CHR ''['' # m @ [CHR '']'']) = Some (JArr xs, [])" by simp
  moreover from a m have "p = a @ CHR ''['' # m @ CHR '']'' # r" by simp
  ultimately show ?thesis using a(2) b that by blast
qed

lemma JSON_parse_core:
  "parse_value (CHR ''['' # m) = Some (v, []) \<Longrightarrow> JSON_parse (CHR ''['' # m) = Some v"
  by (simp add: JSON_parse_def skip_ws_def is_json_ws_def)

lemma JSON_parse_trim:
  assumes "JSON_parse q = Some (JArr ys)"
  shows "JSON_parse (trim q) = Some (JArr ys)"
proof -
  from assms obtain a m b where q: "q = a @ CHR ''['' # m @ CHR '']'' # b"
    and a: "\<forall>c\<in>set a. is_json_ws c" and b: "\<forall>c\<in>set b. is_json_ws c"
    and pv: "parse_value (CHR ''['' # m @ [CHR '']'']) = Some (JArr ys, [])"
    by (rule JSON_parse_array_parts)
  have br: "\<not> is_js_space (CHR ''['')" "\<not> is_js_space (CHR '']'')"
    by (simp_all add: is_js_space_def)
  have "trim q = CHR ''['' # m @ [CHR '']'']"
    unfolding q using a b json_ws_js_space by (intro trim_core br) auto
  with JSON_parse_core [OF pv] show ?thesis by simp
qed

text \<open>
  Removing a fence marker from a text that the decoder accepts gives a text that the decoder
  accepts. Outside of string literals a JSON text has no backtick, so a marker can only stand
  inside a string literal; a marker has no quote, no backslash and no control character, so
  the literal stays one, and no line feed can follow the marker inside a literal.
\<close>

lemma fence_literal_fence: "fence_literal fence"
  by (simp add: fence_literal_def fence_def dquote_def backslash_def)

lemma fence_literal_json_fence: "fence_literal json_fence"
  by (simp add: fence_literal_def json_fence_def dquote_def backslash_def)

lemma keep_plain:
  "fence_literal lit \<Longrightarrow> c \<noteq> CHR ''`'' \<Longrightarrow>
   replace_fence lit (c # cs) = c # replace_fence lit cs"
  by (rule replace_fence_keep_char) (auto simp: fence_literal_def)

lemma keep_ahead:
  "fence_literal lit \<Longrightarrow> CHR ''`'' \<notin> set w \<Longrightarrow>
   replace_fence lit (w @ s) = w @ replace_fence lit s"
  by (rule replace_fence_ahead) (auto simp: fence_literal_def)

lemma json_ws_no_tick: "is_json_ws c \<Longrightarrow> c \<noteq> CHR ''`''"
  by (auto simp: is_json_ws_def)

lemma blank_ahead:
  "fence_literal lit \<Longrightarrow> \<forall>c\<in>set w. is_json_ws c \<Longrightarrow>
   replace_fence lit (w @ s) = w @ replace_fence lit s"
  using json_ws_no_tick by (intro keep_ahead) auto

lemma hex_no_tick: "hex_val h = Some a \<Longrightarrow> h \<noteq> CHR ''`''"
  by (auto simp: hex_val_def Let_def split: if_splits)

lemma escape_no_tick: "escape_unit e = Some a \<Longrightarrow> e \<noteq> CHR ''`''"
  by (auto simp: escape_unit_def dquote_def backslash_def split: if_splits)

lemma plain_prefix:
  assumes "list_all (\<lambda>c. c \<noteq> dquote \<and> c \<noteq> backslash \<and> \<not> (of_char c :: nat) < 32) p"
    and "string_chars (p @ s) = Some (k, r)"
  shows "\<exists>k'. string_chars s = Some (k', r)"
  using assms
proof (induction p arbitrary: k)
  case Nil
  then show ?case by simp
next
  case (Cons c p)
  from Cons.prems obtain k1 where "string_chars (p @ s) = Some (k1, r)"
    by (auto simp: unit_cons_def)
  with Cons.IH Cons.prems(1) show ?case by simp
qed

lemma string_chars_no_line_feed:
  "string_chars s = Some (k, r) \<Longrightarrow> drop_line_feed s = s"
  by (cases s) (auto simp: line_feed_def dquote_def backslash_def split: if_splits)

lemma string_chars_replace_fence:
  assumes lit: "fence_literal lit"
  shows "string_chars s = Some (k, r) \<Longrightarrow>
         \<exists>k'. string_chars (replace_fence lit s) = Some (k', replace_fence lit r)"
proof (induction s arbitrary: k rule: length_induct)
  case (1 s)
  from 1(2) obtain x cs where s: "s = x # cs" by (cases s) auto
  have IH: "\<And>t k. length t < length s \<Longrightarrow> string_chars t = Some (k, r)
      \<Longrightarrow> \<exists>k'. string_chars (replace_fence lit t) = Some (k', replace_fence lit r)"
    using 1(1) by blast
  have q: "dquote \<noteq> CHR ''`''" "backslash \<noteq> CHR ''`''" "CHR ''u'' \<noteq> CHR ''`''"
    by (simp_all add: dquote_def backslash_def)
  show ?case
  proof (cases "x = dquote")
    case True
    with 1(2) s have "r = cs" by simp
    with True s show ?thesis by (simp add: keep_plain [OF lit q(1)])
  next
    case nq: False
    show ?thesis
    proof (cases "x = backslash")
      case True
      from 1(2) s True nq obtain e r1 where cs: "cs = e # r1" by (cases cs) auto
      show ?thesis
      proof (cases "e = CHR ''u''")
        case u: True
        from 1(2) s True nq cs u obtain h1 h2 h3 h4 r2 where r1: "r1 = h1 # h2 # h3 # h4 # r2"
          by (auto split: list.splits)
        from 1(2) s True nq cs u r1 obtain a b c' d k2 where
          hx: "hex_val h1 = Some a" "hex_val h2 = Some b" "hex_val h3 = Some c'" "hex_val h4 = Some d"
          and k2: "string_chars r2 = Some (k2, r)"
          by (auto simp: unit_cons_def split: option.splits)
        from IH [OF _ k2] s cs r1 obtain k' where
          k': "string_chars (replace_fence lit r2) = Some (k', replace_fence lit r)" by auto
        have "replace_fence lit s = x # e # h1 # h2 # h3 # h4 # replace_fence lit r2"
          unfolding s cs r1 True u
          by (simp add: keep_plain [OF lit] q hx [THEN hex_no_tick])
        with True nq u hx k' show ?thesis by (simp add: unit_cons_def)
      next
        case nu: False
        from 1(2) s True nq cs nu obtain v k1 where
          ev: "escape_unit e = Some v" and k1: "string_chars r1 = Some (k1, r)"
          by (auto simp: unit_cons_def split: option.splits)
        from IH [OF _ k1] s cs obtain k' where
          k': "string_chars (replace_fence lit r1) = Some (k', replace_fence lit r)" by auto
        have "replace_fence lit s = x # e # replace_fence lit r1"
          unfolding s cs True
          by (simp add: keep_plain [OF lit] q ev [THEN escape_no_tick])
        with True nq nu ev k' show ?thesis by (simp add: unit_cons_def)
      qed
    next
      case nb: False
      from 1(2) s nq nb obtain k1 where
        pl: "\<not> (of_char x :: nat) < 32" and k1: "string_chars cs = Some (k1, r)"
        by (auto simp: unit_cons_def split: if_splits)
      show ?thesis
      proof (cases "prefix lit s")
        case True
        then obtain s' where s': "s = lit @ s'" by (auto simp: prefix_def)
        from lit have ne: "lit \<noteq> []" and pl: "list_all (\<lambda>c. c \<noteq> dquote \<and> c \<noteq> backslash
            \<and> \<not> (of_char c :: nat) < 32) lit"
          by (simp_all add: fence_literal_def)
        from plain_prefix [OF pl 1(2) [unfolded s']] obtain k2 where
          k2: "string_chars s' = Some (k2, r)" by blast
        from string_chars_no_line_feed [OF k2] have "drop_line_feed s' = s'" .
        with replace_fence_match [OF ne True] s'
        have "replace_fence lit s = replace_fence lit s'" by simp
        moreover from IH [OF _ k2] s' ne obtain k' where
          "string_chars (replace_fence lit s') = Some (k', replace_fence lit r)" by auto
        ultimately show ?thesis by auto
      next
        case False
        then have "replace_fence lit s = x # replace_fence lit cs"
          unfolding s by (rule replace_fence_keep)
        moreover from IH [OF _ k1] s obtain k' where
          "string_chars (replace_fence lit cs) = Some (k', replace_fence lit r)" by auto
        ultimately show ?thesis using nq nb pl by (simp add: unit_cons_def)
      qed
    qed
  qed
qed

lemma digit_no_tick: "is_digit c \<Longrightarrow> c \<noteq> CHR ''`''"
  by (auto simp: is_digit_def)

lemma digits1_no_tick: "digits1 s = Some (t, r) \<Longrightarrow> CHR ''`'' \<notin> set t"
proof -
  assume "digits1 s = Some (t, r)"
  then have "t = takeWhile is_digit s" by (auto simp: digits1_def Let_def split: if_splits)
  then have "\<forall>c\<in>set t. is_digit c" by (auto dest: set_takeWhileD)
  with digit_no_tick show ?thesis by blast
qed

lemma int_part_no_tick: "int_part s = Some (t, r) \<Longrightarrow> CHR ''`'' \<notin> set t"
  by (auto simp: int_part_def split: list.splits if_splits dest: digits1_no_tick)

lemma frac_part_no_tick: "frac_part s = Some (t, r) \<Longrightarrow> CHR ''`'' \<notin> set t"
  by (auto simp: frac_part_def split: list.splits if_splits dest: digits1_no_tick)

lemma exp_part_no_tick: "exp_part s = Some (t, r) \<Longrightarrow> CHR ''`'' \<notin> set t"
  by (auto simp: exp_part_def split: list.splits if_splits dest: digits1_no_tick)

lemma number_token_no_tick: "number_token s = Some (t, r) \<Longrightarrow> CHR ''`'' \<notin> set t"
  by (auto simp: number_token_def split: list.splits if_splits option.splits
      dest!: int_part_no_tick frac_part_no_tick exp_part_no_tick)

lemma number_token_replace_fence:
  assumes lit: "fence_literal lit" and n: "number_token s = Some (t, r)"
    and nx: "r = [] \<or> hd r \<noteq> CHR ''`''"
  shows "number_token (replace_fence lit s) = Some (t, replace_fence lit r)"
proof -
  from number_token_split [OF n] have s: "s = t @ r" by simp
  have R: "replace_fence lit s = t @ replace_fence lit r"
    unfolding s using lit number_token_no_tick [OF n] by (rule keep_ahead)
  show ?thesis
  proof (cases r)
    case Nil
    with R s n show ?thesis by simp
  next
    case (Cons x y)
    with nx have "x \<noteq> CHR ''`''" by simp
    then have "replace_fence lit r = x # replace_fence lit y"
      unfolding Cons using lit by (intro keep_plain)
    moreover have "number_token (t @ x # replace_fence lit y) = Some (t, x # replace_fence lit y)"
      using n [unfolded s Cons] same_next_Cons by (rule number_token_local)
    ultimately show ?thesis using R by simp
  qed
qed

text \<open>
  The same for values, elements and members: the decoder accepts the text without the
  markers, reads up to the corresponding place, and an array keeps its number of elements.
\<close>

lemma skip_ws_keep:
  assumes lit: "fence_literal lit" and sk: "skip_ws s = d # r" and d: "d \<noteq> CHR ''`''"
  shows "skip_ws (replace_fence lit s) = d # replace_fence lit r"
proof -
  from sk obtain w where w: "s = w @ d # r" "\<forall>c\<in>set w. is_json_ws c" "\<not> is_json_ws d"
    by (rule skip_ws_parts)
  have "replace_fence lit s = w @ d # replace_fence lit r"
    unfolding w(1) using blank_ahead [OF lit w(2)] keep_plain [OF lit d] by simp
  then show ?thesis using skip_ws_blank [OF w(2,3)] by simp
qed

lemma skip_ws_keep_value:
  assumes lit: "fence_literal lit" and pv: "parse_value (skip_ws s) = Some (v, r)"
  shows "skip_ws (replace_fence lit s) = replace_fence lit (skip_ws s)"
proof -
  from pv obtain m rest where m: "skip_ws s = m # rest" "\<not> is_json_ws m" "m \<noteq> CHR ''`''"
    by (rule parse_value_start)
  from skip_ws_keep [OF lit m(1) m(3)] keep_plain [OF lit m(3)] m(1) show ?thesis by simp
qed

lemma next_plain:
  assumes "skip_ws r = d # r'" "d \<noteq> CHR ''`''"
  shows "r = [] \<or> hd r \<noteq> CHR ''`''"
proof -
  from assms(1) obtain w where w: "r = w @ d # r'" "\<forall>c\<in>set w. is_json_ws c"
    by (rule skip_ws_parts)
  show ?thesis using w assms(2) json_ws_no_tick by (cases w) auto
qed

lemma parse_elements_first:
  assumes "parse_elements (d # r') = Some (xs, r)" "\<not> is_json_ws d"
  shows "d \<noteq> CHR ''`''"
proof -
  from assms(2) have sk: "skip_ws (d # r') = d # r'" by (simp add: skip_ws_def)
  from assms(1) obtain v1 r1 where "parse_value (skip_ws (d # r')) = Some (v1, r1)"
    by (cases rule: parse_elements_cases) blast+
  with sk have "parse_value (d # r') = Some (v1, r1)" by simp
  then show ?thesis by (rule parse_value_start) simp
qed

lemma parse_members_first:
  assumes "parse_members (d # r') = Some (kvs, r)" "\<not> is_json_ws d"
  shows "d \<noteq> CHR ''`''"
proof -
  from assms(2) have sk: "skip_ws (d # r') = d # r'" by (simp add: skip_ws_def)
  from assms(1) obtain r0 where "skip_ws (d # r') = dquote # r0"
    by (cases rule: parse_members_cases) blast+
  with sk have "d = dquote" by simp
  then show ?thesis by (simp add: dquote_def)
qed

lemma parse_replace_fence:
  assumes lit: "fence_literal lit"
  shows
  "\<forall>v r. parse_value s = Some (v, r) \<longrightarrow> ((\<exists>t. v = JNum t) \<longrightarrow> r = [] \<or> hd r \<noteq> CHR ''`'') \<longrightarrow>
      (\<exists>v'. parse_value (replace_fence lit s) = Some (v', replace_fence lit r)
          \<and> (\<forall>xs. v = JArr xs \<longrightarrow> (\<exists>xs'. v' = JArr xs' \<and> length xs' = length xs)))"
  "\<forall>xs r. parse_elements s1 = Some (xs, r) \<longrightarrow>
      (\<exists>xs'. parse_elements (replace_fence lit s1) = Some (xs', replace_fence lit r)
          \<and> length xs' = length xs)"
  "\<forall>kvs r. parse_members s2 = Some (kvs, r) \<longrightarrow>
      (\<exists>kvs'. parse_members (replace_fence lit s2) = Some (kvs', replace_fence lit r))"
proof (induction s and s1 and s2 rule: parse_value_parse_elements_parse_members.induct)
  case (1 s)
  let ?R = "replace_fence lit"
  have br: "CHR ''['' \<noteq> CHR ''`''" "CHR '']'' \<noteq> CHR ''`''" "CHR ''{'' \<noteq> CHR ''`''"
    "CHR ''}'' \<noteq> CHR ''`''" "dquote \<noteq> CHR ''`''"
    by (simp_all add: dquote_def)
  show ?case
  proof (intro allI impI)
    fix v r
    assume pv: "parse_value s = Some (v, r)"
      and nx: "(\<exists>t. v = JNum t) \<longrightarrow> r = [] \<or> hd r \<noteq> CHR ''`''"
    from pv show "\<exists>v'. parse_value (?R s) = Some (v', ?R r)
          \<and> (\<forall>xs. v = JArr xs \<longrightarrow> (\<exists>xs'. v' = JArr xs' \<and> length xs' = length xs))"
    proof (cases rule: parse_value_cases)
      case (ea r0)
      have "skip_ws (?R r0) = CHR '']'' # ?R r" using lit ea(2) br(2) by (rule skip_ws_keep)
      from parse_value_empty_array [OF this] have "parse_value (?R s) = Some (JArr [], ?R r)"
        unfolding ea(1) using keep_plain [OF lit br(1)] by simp
      with ea(3) show ?thesis by simp
    next
      case (arr r0 d r' xs)
      from arr(2) have "\<not> is_json_ws d" by (rule skip_ws_hd)
      with arr(4) have d: "d \<noteq> CHR ''`''" by (rule parse_elements_first)
      from 1(1) [OF arr(1) refl arr(2) arr(3)] arr(4) obtain xs' where
        e: "parse_elements (?R (d # r')) = Some (xs', ?R r)" "length xs' = length xs" by blast
      then have e': "parse_elements (d # ?R r') = Some (xs', ?R r)"
        using keep_plain [OF lit d] by simp
      have "skip_ws (?R r0) = d # ?R r'" using lit arr(2) d by (rule skip_ws_keep)
      from parse_value_array [OF this arr(3) e'] have "parse_value (?R s) = Some (JArr xs', ?R r)"
        unfolding arr(1) using keep_plain [OF lit br(1)] by simp
      with arr(5) e(2) show ?thesis by simp
    next
      case (eo r0)
      have "skip_ws (?R r0) = CHR ''}'' # ?R r" using lit eo(2) br(4) by (rule skip_ws_keep)
      from parse_value_empty_object [OF this] have "parse_value (?R s) = Some (JObj [], ?R r)"
        unfolding eo(1) using keep_plain [OF lit br(3)] by simp
      with eo(3) show ?thesis by simp
    next
      case (obj r0 d r' kvs)
      from obj(2) have "\<not> is_json_ws d" by (rule skip_ws_hd)
      with obj(4) have d: "d \<noteq> CHR ''`''" by (rule parse_members_first)
      have ne: "CHR ''['' \<noteq> CHR ''{''" by simp
      from 1(2) [OF obj(1) _ refl obj(2) obj(3)] obj(4) obtain kvs' where
        e: "parse_members (?R (d # r')) = Some (kvs', ?R r)" by auto
      then have e': "parse_members (d # ?R r') = Some (kvs', ?R r)"
        using keep_plain [OF lit d] by simp
      have "skip_ws (?R r0) = d # ?R r'" using lit obj(2) d by (rule skip_ws_keep)
      from parse_value_object [OF this obj(3) e'] have "parse_value (?R s) = Some (JObj kvs', ?R r)"
        unfolding obj(1) using keep_plain [OF lit br(3)] by simp
      with obj(5) show ?thesis by simp
    next
      case (str r0 k)
      from string_chars_replace_fence [OF lit str(2)] obtain k' where
        "string_chars (?R r0) = Some (k', ?R r)" by blast
      from parse_value_text [OF this] have "parse_value (?R s) = Some (JStr k', ?R r)"
        unfolding str(1) using keep_plain [OF lit br(5)] by simp
      with str(3) show ?thesis by simp
    next
      case true
      have "?R s = ''true'' @ ?R r" unfolding true(1) using lit by (rule keep_ahead) simp
      with parse_value_true [of "?R r"] true(2) show ?thesis by simp
    next
      case false
      have "?R s = ''false'' @ ?R r" unfolding false(1) using lit by (rule keep_ahead) simp
      with parse_value_false [of "?R r"] false(2) show ?thesis by simp
    next
      case null
      have "?R s = ''null'' @ ?R r" unfolding null(1) using lit by (rule keep_ahead) simp
      with parse_value_null [of "?R r"] null(2) show ?thesis by simp
    next
      case (num t)
      from nx num(2) have "r = [] \<or> hd r \<noteq> CHR ''`''" by blast
      from number_token_replace_fence [OF lit num(1) this]
      have "number_token (?R s) = Some (t, ?R r)" .
      from parse_value_number [OF this] num(2) show ?thesis by simp
    qed
  qed
next
  case (2 s)
  let ?R = "replace_fence lit"
  show ?case
  proof (intro allI impI)
    fix xs r
    assume pe: "parse_elements s = Some (xs, r)"
    have step: "\<exists>xs'. parse_elements (?R s) = Some (xs', ?R r) \<and> length xs' = length xs"
      if pv: "parse_value (skip_ws s) = Some (v, r1)" and sk: "skip_ws r1 = d # r'"
        and d: "d \<noteq> CHR ''`''"
        and rest: "parse_elements (?R r') = Some (ys, ?R r) \<and> d = CHR '','' \<and> length xs = Suc (length ys)
            \<or> r' = r \<and> d = CHR '']'' \<and> length xs = 1"
      for v r1 d r' ys
    proof -
      from sk d have "(\<exists>t. v = JNum t) \<longrightarrow> r1 = [] \<or> hd r1 \<noteq> CHR ''`''"
        by (simp add: next_plain)
      from 2(1) [THEN spec, THEN spec, THEN mp, OF pv, THEN mp, OF this] obtain v' where
        v': "parse_value (?R (skip_ws s)) = Some (v', ?R r1)" by auto
      have s': "skip_ws (?R s) = ?R (skip_ws s)" using lit pv by (rule skip_ws_keep_value)
      have k': "skip_ws (?R r1) = d # ?R r'" using lit sk d by (rule skip_ws_keep)
      from rest show ?thesis
      proof (elim disjE conjE)
        assume a: "parse_elements (?R r') = Some (ys, ?R r)" "d = CHR '',''"
          "length xs = Suc (length ys)"
        from parse_elements_more [of "?R s" v' "?R r1" "?R r'" ys "?R r"] v' s' k' a
        show ?thesis by simp
      next
        assume a: "r' = r" "d = CHR '']''" "length xs = 1"
        from parse_elements_last [of "?R s" v' "?R r1" "?R r"] v' s' k' a
        show ?thesis by simp
      qed
    qed
    from pe show "\<exists>xs'. parse_elements (?R s) = Some (xs', ?R r) \<and> length xs' = length xs"
    proof (cases rule: parse_elements_cases)
      case (more v r1 r' xs')
      have len: "length r1 < length s"
        using parse_value_shorter [OF more(1)] length_skip_ws [of s] by simp
      from 2(2) [OF more(1) refl len more(2) refl] more(3) obtain ys where
        ys: "parse_elements (?R r') = Some (ys, ?R r)" "length ys = length xs'" by blast
      have "CHR '','' \<noteq> CHR ''`''" by simp
      from step [OF more(1) more(2) this, of ys] ys more(4) show ?thesis by simp
    next
      case (last v r1)
      have "CHR '']'' \<noteq> CHR ''`''" by simp
      from step [OF last(1) last(2) this] last(3) show ?thesis by simp
    qed
  qed
next
  case (3 s)
  let ?R = "replace_fence lit"
  have br: "dquote \<noteq> CHR ''`''" "CHR '':'' \<noteq> CHR ''`''" by (simp_all add: dquote_def)
  show ?case
  proof (intro allI impI)
    fix kvs r
    assume pm: "parse_members s = Some (kvs, r)"
    have step: "\<exists>kvs'. parse_members (?R s) = Some (kvs', ?R r)"
      if s0: "skip_ws s = dquote # r0" and k: "string_chars r0 = Some (k, r1)"
        and s1: "skip_ws r1 = CHR '':'' # r2" and pv: "parse_value (skip_ws r2) = Some (v, r3)"
        and s3: "skip_ws r3 = d # r4" and d: "d \<noteq> CHR ''`''"
        and rest: "parse_members (?R r4) = Some (ys, ?R r) \<and> d = CHR '',''
            \<or> r4 = r \<and> d = CHR ''}''"
      for r0 k r1 r2 v r3 d r4 ys
    proof -
      have a0: "skip_ws (?R s) = dquote # ?R r0" using lit s0 br(1) by (rule skip_ws_keep)
      from string_chars_replace_fence [OF lit k] obtain k' where
        a1: "string_chars (?R r0) = Some (k', ?R r1)" by blast
      have a2: "skip_ws (?R r1) = CHR '':'' # ?R r2" using lit s1 br(2) by (rule skip_ws_keep)
      have a3: "skip_ws (?R r2) = ?R (skip_ws r2)" using lit pv by (rule skip_ws_keep_value)
      from s3 d have nx: "(\<exists>t. v = JNum t) \<longrightarrow> r3 = [] \<or> hd r3 \<noteq> CHR ''`''"
        by (simp add: next_plain)
      have "\<forall>v r. parse_value (skip_ws r2) = Some (v, r) \<longrightarrow>
          ((\<exists>t. v = JNum t) \<longrightarrow> r = [] \<or> hd r \<noteq> CHR ''`'') \<longrightarrow>
          (\<exists>v'. parse_value (?R (skip_ws r2)) = Some (v', ?R r)
              \<and> (\<forall>xs. v = JArr xs \<longrightarrow> (\<exists>xs'. v' = JArr xs' \<and> length xs' = length xs)))"
        using 3(1) [OF s0 _ k refl s1 _] by simp
      from this [THEN spec, THEN spec, THEN mp, OF pv, THEN mp, OF nx] obtain v' where
        a4: "parse_value (?R (skip_ws r2)) = Some (v', ?R r3)" by auto
      have a5: "skip_ws (?R r3) = d # ?R r4" using lit s3 d by (rule skip_ws_keep)
      from rest show ?thesis
      proof (elim disjE conjE)
        assume a: "parse_members (?R r4) = Some (ys, ?R r)" "d = CHR '',''"
        from parse_members_more [of "?R s" "?R r0" k' "?R r1" "?R r2" v' "?R r3" "?R r4" ys "?R r"]
          a0 a1 a2 a3 a4 a5 a
        show ?thesis by simp
      next
        assume a: "r4 = r" "d = CHR ''}''"
        from parse_members_last [of "?R s" "?R r0" k' "?R r1" "?R r2" v' "?R r3" "?R r"]
          a0 a1 a2 a3 a4 a5 a
        show ?thesis by simp
      qed
    qed
    from pm show "\<exists>kvs'. parse_members (?R s) = Some (kvs', ?R r)"
    proof (cases rule: parse_members_cases)
      case (more r0 k r1 r2 v r3 r4 kvs')
      have len: "length r3 < length s"
      proof -
        have "length r3 < length (skip_ws r2)" using more(4) by (rule parse_value_shorter)
        also have "\<dots> \<le> length r2" by (rule length_skip_ws)
        also have "\<dots> \<le> length (skip_ws r1)" using more(3) by simp
        also have "\<dots> \<le> length r1" by (rule length_skip_ws)
        also have "\<dots> \<le> length r0" using string_chars_shorter [OF more(2)] by simp
        also have "\<dots> \<le> length (skip_ws s)" using more(1) by simp
        also have "\<dots> \<le> length s" by (rule length_skip_ws)
        finally show ?thesis .
      qed
      from 3(2) [OF more(1) _ more(2) refl more(3) _ more(4) refl len more(5) refl] more(6)
      obtain ys where ys: "parse_members (?R r4) = Some (ys, ?R r)" by auto
      have "CHR '','' \<noteq> CHR ''`''" by simp
      from step [OF more(1) more(2) more(3) more(4) more(5) this, of ys] ys show ?thesis by simp
    next
      case (last r0 k r1 r2 v r3)
      have "CHR ''}'' \<noteq> CHR ''`''" by simp
      from step [OF last(1) last(2) last(3) last(4) last(5) this] show ?thesis by simp
    qed
  qed
qed

lemma JSON_parse_replace_fence:
  assumes lit: "fence_literal lit" and p: "JSON_parse s = Some (JArr xs)"
  shows "\<exists>xs'. JSON_parse (replace_fence lit s) = Some (JArr xs') \<and> length xs' = length xs"
proof -
  let ?R = "replace_fence lit"
  from p obtain r where pv: "parse_value (skip_ws s) = Some (JArr xs, r)" and e: "skip_ws r = []"
    by (auto simp: JSON_parse_def split: option.splits if_splits)
  have "(\<exists>t. JArr xs = JNum t) \<longrightarrow> r = [] \<or> hd r \<noteq> CHR ''`''" by simp
  from parse_replace_fence(1) [OF lit, THEN spec, THEN spec, THEN mp, OF pv, THEN mp, OF this] obtain xs' where
    v: "parse_value (?R (skip_ws s)) = Some (JArr xs', ?R r)" and l: "length xs' = length xs"
    by auto
  have s': "skip_ws (?R s) = ?R (skip_ws s)" using lit pv by (rule skip_ws_keep_value)
  from e have "\<forall>c\<in>set r. is_json_ws c"
    by (simp add: skip_ws_def dropWhile_eq_Nil_conv)
  moreover from this have "?R r = r" using blank_ahead [OF lit, of r "[]"] by simp
  ultimately have "skip_ws (?R r) = []" by (simp add: skip_ws_def)
  with v s' l show ?thesis by (simp add: JSON_parse_def)
qed

lemma replace_fence_no_occurrence: "\<not> sublist lit s \<Longrightarrow> replace_fence lit s = s"
proof (induction s)
  case Nil
  show ?case by simp
next
  case (Cons c cs)
  from Cons(2) have "\<not> prefix lit (c # cs)" by (auto dest: prefix_imp_sublist)
  then have "replace_fence lit (c # cs) = c # replace_fence lit cs" by (rule replace_fence_keep)
  moreover from Cons(2) have "\<not> sublist lit cs" by (auto simp: sublist_Cons_right)
  ultimately show ?case using Cons(1) by simp
qed

lemma no_fence_no_json_fence: "\<not> sublist fence p \<Longrightarrow> \<not> sublist json_fence p"
proof
  assume n: "\<not> sublist fence p" and j: "sublist json_fence p"
  have "prefix fence json_fence" by (simp add: fence_def json_fence_def)
  then have "sublist fence json_fence" by (rule prefix_imp_sublist)
  from this j have "sublist fence p" by (rule sublist_order.order_trans)
  with n show False by contradiction
qed

text \<open>
  C6: for every payload that \<^verbatim>\<open>JSON.parse\<close> decodes to an array, the quiz parser decodes
  the payload alone and the payload wrapped in code-fence markers, and both to the same array,
  which has as many entries as the array in the payload; it is that array itself when the
  payload contains no \<^verbatim>\<open>```\<close>. The opening marker is \<^verbatim>\<open>```\<close> or \<^verbatim>\<open>```json\<close>, the closing
  one \<^verbatim>\<open>```\<close>, and any white space (a line feed, usually) may stand between the markers
  and the payload and behind the closing marker.
\<close>

theorem parseQuiz_fenced_round_trip:
  assumes "JSON_parse payload = Some (JArr questions)"
    and "opening = fence \<or> opening = json_fence"
    and "\<forall>c\<in>set (w1 @ w2 @ w3). is_js_space c"
  shows "\<exists>decoded. parseQuiz (opening @ w1 @ payload @ w2 @ fence @ w3) = Some (JArr decoded)
           \<and> parseQuiz payload = Some (JArr decoded)
           \<and> length decoded = length questions
           \<and> (\<not> sublist fence payload \<longrightarrow> decoded = questions)"
proof -
  from JSON_parse_array_shape [OF assms(1)] obtain a m b where
    p: "payload = a @ CHR ''['' # m @ CHR '']'' # b"
    and a: "\<forall>c\<in>set a. is_js_space c" and b: "\<forall>c\<in>set b. is_js_space c"
    using json_ws_js_space by blast
  have eq: "cleanQuizText (opening @ w1 @ payload @ w2 @ fence @ w3) = cleanQuizText payload"
    by (rule cleanQuizText_fenced [OF p a b assms(3) assms(2)])
  from JSON_parse_replace_fence [OF fence_literal_json_fence assms(1)] obtain xs1 where
    x1: "JSON_parse (replace_fence json_fence payload) = Some (JArr xs1)"
    and l1: "length xs1 = length questions" by blast
  from JSON_parse_replace_fence [OF fence_literal_fence x1] obtain xs2 where
    x2: "JSON_parse (replace_fence fence (replace_fence json_fence payload)) = Some (JArr xs2)"
    and l2: "length xs2 = length xs1" by blast
  from JSON_parse_trim [OF x2] have bare: "parseQuiz payload = Some (JArr xs2)"
    by (simp add: parseQuiz_def cleanQuizText_def)
  with eq have fenced: "parseQuiz (opening @ w1 @ payload @ w2 @ fence @ w3) = Some (JArr xs2)"
    by (simp add: parseQuiz_def)
  have "xs2 = questions" if n: "\<not> sublist fence payload"
  proof -
    from n have "replace_fence json_fence payload = payload"
      by (intro replace_fence_no_occurrence no_fence_no_json_fence)
    moreover from n have "replace_fence fence payload = payload"
      by (rule replace_fence_no_occurrence)
    ultimately show ?thesis using x2 assms(1) by simp
  qed
  with fenced bare l1 l2 show ?thesis by simp
qed

theorem parseQuiz_fenced_round_trip_witness:
  \<open>JSON_parse ''[{"question": "Q?", "correctAnswer": "A"}]''
     = Some (JArr [JObj [(js_string ''question'', JStr (js_string ''Q?'')),
                         (js_string ''correctAnswer'', JStr (js_string ''A''))]])
   \<and> is_js_space line_feed
   \<and> parseQuiz (json_fence @ [line_feed] @ ''[{"question": "Q?", "correctAnswer": "A"}]''
                  @ [line_feed] @ fence @ [])
       = Some (JArr [JObj [(js_string ''question'', JStr (js_string ''Q?'')),
                           (js_string ''correctAnswer'', JStr (js_string ''A''))]])
   \<and> parseQuiz ''[{"question": "Q?", "correctAnswer": "A"}]''
       = Some (JArr [JObj [(js_string ''question'', JStr (js_string ''Q?'')),
                           (js_string ''correctAnswer'', JStr (js_string ''A''))]])
   \<and> JSON_parse ''["a```b", 1]'' = Some (JArr [JStr (js_string ''a```b''), JNum ''1''])
   \<and> parseQuiz (fence @ [] @ ''["a```b", 1]'' @ [] @ fence @ [line_feed])
       = Some (JArr [JStr (js_string ''ab''), JNum ''1''])
   \<and> parseQuiz ''["a```b", 1]'' = Some (JArr [JStr (js_string ''ab''), JNum ''1''])\<close>
proof -
  let ?quiz = "JArr [JObj [(js_string ''question'', JStr (js_string ''Q?'')),
                           (js_string ''correctAnswer'', JStr (js_string ''A''))]]"
  have h1: \<open>JSON_parse ''[{"question": "Q?", "correctAnswer": "A"}]'' = Some ?quiz\<close>
    by code_simp
  have h2: "json_fence = fence \<or> json_fence = json_fence" by simp
  have s: "is_js_space line_feed" by (simp add: line_feed_def is_js_space_def)
  then have h3: "\<forall>c\<in>set ([line_feed] @ [line_feed] @ []). is_js_space c" by simp
  have b1: \<open>parseQuiz ''[{"question": "Q?", "correctAnswer": "A"}]'' = Some ?quiz\<close>
    by code_simp
  from parseQuiz_fenced_round_trip [OF h1 h2 h3] obtain decoded where
    \<open>parseQuiz (json_fence @ [line_feed] @ ''[{"question": "Q?", "correctAnswer": "A"}]''
                  @ [line_feed] @ fence @ []) = Some (JArr decoded)\<close>
    and \<open>parseQuiz ''[{"question": "Q?", "correctAnswer": "A"}]'' = Some (JArr decoded)\<close>
    by blast
  with b1 have f1: \<open>parseQuiz (json_fence @ [line_feed]
        @ ''[{"question": "Q?", "correctAnswer": "A"}]'' @ [line_feed] @ fence @ []) = Some ?quiz\<close>
    by simp
  have g1: \<open>JSON_parse ''["a```b", 1]'' = Some (JArr [JStr (js_string ''a```b''), JNum ''1''])\<close>
    by code_simp
  have g2: "fence = fence \<or> fence = json_fence" by simp
  from s have g3: "\<forall>c\<in>set ([] @ [] @ [line_feed]). is_js_space c" by simp
  have b2: \<open>parseQuiz ''["a```b", 1]'' = Some (JArr [JStr (js_string ''ab''), JNum ''1''])\<close>
    by code_simp
  from parseQuiz_fenced_round_trip [OF g1 g2 g3] obtain decoded where
    \<open>parseQuiz (fence @ [] @ ''["a```b", 1]'' @ [] @ fence @ [line_feed]) = Some (JArr decoded)\<close>
    and \<open>parseQuiz ''["a```b", 1]'' = Some (JArr decoded)\<close>
    by blast
  with b2 have f2: \<open>parseQuiz (fence @ [] @ ''["a```b", 1]'' @ [] @ fence @ [line_feed])
      = Some (JArr [JStr (js_string ''ab''), JNum ''1''])\<close>
    by simp
  from h1 s f1 b1 g1 f2 b2 show ?thesis by simp
qed

section \<open>Properties of the quiz and summary handlers\<close>

text \<open>
  C9: in every successful quiz response whose quiz is an array, \<^verbatim>\<open>totalQuestions\<close> is the
  number of entries of that array, whatever that number is.
\<close>

theorem getQuiz_totalQuestions_is_array_length:
  assumes "getQuiz env i st = (res, st')" "data res = QuizData qd" "quiz qd = JArr entries"
  shows "success res \<and> totalQuestions qd = NumberValue (length entries)"
  using assms
  by (auto simp: getQuiz_def getQuiz_catch_def failure_def ok_def
      split: option.splits sum.splits)

theorem getQuiz_totalQuestions_is_array_length_witness:
  \<open>getQuiz (demo_env (Inr ''[{"question": "Q?"}, {"question": "R?"}]'')) ''f1'' demo_server
     = (ok (QuizData demo_quiz_data), demo_server)
   \<and> data (ok (QuizData demo_quiz_data)) = QuizData demo_quiz_data
   \<and> quiz demo_quiz_data = JArr [JObj [(js_string ''question'', JStr (js_string ''Q?''))],
                                 JObj [(js_string ''question'', JStr (js_string ''R?''))]]
   \<and> success (ok (QuizData demo_quiz_data))
   \<and> totalQuestions demo_quiz_data = NumberValue (length
         [JObj [(js_string ''question'', JStr (js_string ''Q?''))],
          JObj [(js_string ''question'', JStr (js_string ''R?''))]])\<close>
proof -
  have run: \<open>getQuiz (demo_env (Inr ''[{"question": "Q?"}, {"question": "R?"}]'')) ''f1'' demo_server
     = (ok (QuizData demo_quiz_data), demo_server)\<close>
    by code_simp
  have d: "data (ok (QuizData demo_quiz_data)) = QuizData demo_quiz_data"
    by (simp add: ok_def)
  have q: \<open>quiz demo_quiz_data = JArr [JObj [(js_string ''question'', JStr (js_string ''Q?''))],
                                 JObj [(js_string ''question'', JStr (js_string ''R?''))]]\<close>
    by (simp add: demo_quiz_data_def)
  from getQuiz_totalQuestions_is_array_length [OF run d q] run d q show ?thesis by blast
qed

text \<open>
  The contract can be met: five well-formed questions inside a \<^verbatim>\<open>```json\<close> fence decode
  to a quiz that satisfies it.
\<close>

lemma fenced_five_questions_are_valid:
  "map_option spec_valid_quiz
     (parseQuiz (json_fence @ [line_feed] @ five_question_text @ [line_feed] @ fence))
   = Some True"
  by code_simp

text \<open>
  A run that contradicts C1 as stated: the backend answers with one question that has two
  options and the answer E; \<^verbatim>\<open>getQuiz\<close> returns it as the quiz, although it violates the
  structural contract.
\<close>

theorem getQuiz_returns_invalid_quiz_counterexample:
  "getQuiz (demo_env (Inr short_quiz_text)) ''f1'' demo_server
     = (ok (QuizData \<lparr>q_fileId = ''f1'', q_title = ''Algebra Basics'', q_subject = ''Math'',
                      quiz = short_quiz, totalQuestions = NumberValue 1,
                      q_generatedAt = 30\<rparr>), demo_server)
   \<and> \<not> spec_valid_quiz short_quiz"
  by code_simp

text \<open>
  C1 (amended): for every raw text that the generation backend returns in quiz mode, the quiz
  operation either fails with the generic generation error, which happens exactly when the
  cleaned text does not decode or decodes to null, or returns the decoded value unchanged as
  the quiz; the shape of the decoded value is not checked.
\<close>

theorem getQuiz_fails_or_returns_decoded:
  assumes "find_error env = None" "findById (files st) i = Some f"
    and "generateContent env (quizPrompt f) = Inr text"
  shows "(fst (getQuiz env i st) = failure 500 ''Failed to generate quiz. Please try again.''
          \<and> (parseQuiz text = None \<or> parseQuiz text = Some JNull))
       \<or> (\<exists>q n. parseQuiz text = Some q \<and> q \<noteq> JNull \<and> length_prop q = Some n
            \<and> fst (getQuiz env i st)
                = ok (QuizData \<lparr>q_fileId = doc_id f, q_title = title f, q_subject = subject f,
                                 quiz = q, totalQuestions = n, q_generatedAt = now env\<rparr>))"
proof (cases "parseQuiz text")
  case None
  with assms show ?thesis by (simp add: getQuiz_def getQuiz_catch_def)
next
  case (Some q)
  show ?thesis
  proof (cases "length_prop q")
    case None
    then have "q = JNull" by (cases q) (auto split: option.splits)
    with assms Some show ?thesis by (simp add: getQuiz_def getQuiz_catch_def)
  next
    case n: (Some n)
    then have "q \<noteq> JNull" by auto
    with assms Some n show ?thesis by (simp add: getQuiz_def)
  qed
qed

theorem getQuiz_fails_or_returns_decoded_witness:
  "find_error (demo_env (Inr short_quiz_text)) = None
   \<and> findById (files demo_server) ''f1'' = Some demo_doc
   \<and> generateContent (demo_env (Inr short_quiz_text)) (quizPrompt demo_doc) = Inr short_quiz_text
   \<and> parseQuiz short_quiz_text = Some short_quiz
   \<and> fst (getQuiz (demo_env (Inr short_quiz_text)) ''f1'' demo_server)
       = ok (QuizData \<lparr>q_fileId = ''f1'', q_title = ''Algebra Basics'', q_subject = ''Math'',
                        quiz = short_quiz, totalQuestions = NumberValue 1,
                        q_generatedAt = 30\<rparr>)"
proof -
  have h1: "find_error (demo_env (Inr short_quiz_text)) = None" by (simp add: demo_env_def)
  have h2: "findById (files demo_server) ''f1'' = Some demo_doc"
    by (simp add: findById_def demo_server_def demo_doc_def)
  have h3: "generateContent (demo_env (Inr short_quiz_text)) (quizPrompt demo_doc) = Inr short_quiz_text"
    by (simp add: demo_env_def)
  have p: "parseQuiz short_quiz_text = Some short_quiz" by code_simp
  have n: "length_prop short_quiz = Some (NumberValue 1)" by (simp add: short_quiz_def)
  have d: "doc_id demo_doc = ''f1''" "title demo_doc = ''Algebra Basics''" "subject demo_doc = ''Math''"
    "now (demo_env (Inr short_quiz_text)) = 30"
    by (simp_all add: demo_doc_def demo_env_def)
  from getQuiz_fails_or_returns_decoded [OF h1 h2 h3] p n d
  have "fst (getQuiz (demo_env (Inr short_quiz_text)) ''f1'' demo_server)
       = ok (QuizData \<lparr>q_fileId = ''f1'', q_title = ''Algebra Basics'', q_subject = ''Math'',
                        quiz = short_quiz, totalQuestions = NumberValue 1,
                        q_generatedAt = 30\<rparr>)"
    by (auto simp: short_quiz_def)
  with h1 h2 h3 p show ?thesis by blast
qed

text \<open>
  C4: when the generation backend call fails in a summary or quiz request for a document that
  is found, or the quiz text cannot be decoded, the response has status 500, no data and the
  fixed message of the operation (\<^verbatim>\<open>Failed to generate summary. Please try again.\<close> or
  \<^verbatim>\<open>Failed to generate quiz. Please try again.\<close>), whatever the error is, and the console
  has one more line, which holds the error.
\<close>

theorem generation_failure_is_reported_generically:
  assumes "find_error env = None" "findById (files st) i = Some f"
  shows "(generateContent env (summaryPrompt f) = Inl err \<longrightarrow>
            status (fst (getSummary env i st)) = 500
          \<and> success (fst (getSummary env i st)) = False
          \<and> message (fst (getSummary env i st))
              = Some ''Failed to generate summary. Please try again.''
          \<and> data (fst (getSummary env i st)) = NoData
          \<and> console (snd (getSummary env i st))
              = console st @ [(''Summary generation error:'', err)])
       \<and> (generateContent env (quizPrompt f) = Inl err \<longrightarrow>
            status (fst (getQuiz env i st)) = 500
          \<and> success (fst (getQuiz env i st)) = False
          \<and> message (fst (getQuiz env i st))
              = Some ''Failed to generate quiz. Please try again.''
          \<and> data (fst (getQuiz env i st)) = NoData
          \<and> console (snd (getQuiz env i st))
              = console st @ [(''Quiz generation error:'', err)])
       \<and> (generateContent env (quizPrompt f) = Inr text \<and> parseQuiz text = None \<longrightarrow>
            status (fst (getQuiz env i st)) = 500
          \<and> success (fst (getQuiz env i st)) = False
          \<and> message (fst (getQuiz env i st))
              = Some ''Failed to generate quiz. Please try again.''
          \<and> data (fst (getQuiz env i st)) = NoData
          \<and> console (snd (getQuiz env i st))
              = console st @ [(''Quiz generation error:'', ''SyntaxError'')])"
  using assms
  by (simp add: getSummary_def getSummary_catch_def getQuiz_def getQuiz_catch_def
      failure_def console_error_def)

theorem generation_failure_is_reported_generically_witness:
  "find_error (demo_env (Inl ''quota exceeded'')) = None
   \<and> findById (files demo_server) ''f1'' = Some demo_doc
   \<and> generateContent (demo_env (Inl ''quota exceeded'')) (summaryPrompt demo_doc) = Inl ''quota exceeded''
   \<and> generateContent (demo_env (Inl ''quota exceeded'')) (quizPrompt demo_doc) = Inl ''quota exceeded''
   \<and> message (fst (getSummary (demo_env (Inl ''quota exceeded'')) ''f1'' demo_server))
       = Some ''Failed to generate summary. Please try again.''
   \<and> console (snd (getSummary (demo_env (Inl ''quota exceeded'')) ''f1'' demo_server))
       = console demo_server @ [(''Summary generation error:'', ''quota exceeded'')]
   \<and> message (fst (getQuiz (demo_env (Inl ''quota exceeded'')) ''f1'' demo_server))
       = Some ''Failed to generate quiz. Please try again.''
   \<and> console (snd (getQuiz (demo_env (Inl ''quota exceeded'')) ''f1'' demo_server))
       = console demo_server @ [(''Quiz generation error:'', ''quota exceeded'')]
   \<and> find_error (demo_env (Inr ''Sorry, no quiz today.'')) = None
   \<and> generateContent (demo_env (Inr ''Sorry, no quiz today.'')) (quizPrompt demo_doc)
       = Inr ''Sorry, no quiz today.''
   \<and> parseQuiz ''Sorry, no quiz today.'' = None
   \<and> status (fst (getQuiz (demo_env (Inr ''Sorry, no quiz today.'')) ''f1'' demo_server)) = 500
   \<and> message (fst (getQuiz (demo_env (Inr ''Sorry, no quiz today.'')) ''f1'' demo_server))
       = Some ''Failed to generate quiz. Please try again.''
   \<and> console (snd (getQuiz (demo_env (Inr ''Sorry, no quiz today.'')) ''f1'' demo_server))
       = console demo_server @ [(''Quiz generation error:'', ''SyntaxError'')]"
proof -
  have f: "findById (files demo_server) ''f1'' = Some demo_doc"
    by (simp add: findById_def demo_server_def demo_doc_def)
  have e1: "find_error (demo_env (Inl ''quota exceeded'')) = None"
    and g1: "generateContent (demo_env (Inl ''quota exceeded'')) (summaryPrompt demo_doc) = Inl ''quota exceeded''"
    and g2: "generateContent (demo_env (Inl ''quota exceeded'')) (quizPrompt demo_doc) = Inl ''quota exceeded''"
    and e2: "find_error (demo_env (Inr ''Sorry, no quiz today.'')) = None"
    and g3: "generateContent (demo_env (Inr ''Sorry, no quiz today.'')) (quizPrompt demo_doc)
       = Inr ''Sorry, no quiz today.''"
    by (simp_all add: demo_env_def)
  have p: "parseQuiz ''Sorry, no quiz today.'' = None" by code_simp
  note a = generation_failure_is_reported_generically [OF e1 f, of "''quota exceeded''", THEN conjunct1, rule_format, OF g1]
  note b = generation_failure_is_reported_generically [OF e1 f, of "''quota exceeded''", THEN conjunct2, THEN conjunct1,
      rule_format, OF g2]
  note c = generation_failure_is_reported_generically [OF e2 f, of _ "''Sorry, no quiz today.''", THEN conjunct2, THEN conjunct2,
      rule_format, OF conjI [OF g3 p]]
  from f e1 g1 g2 e2 g3 p a b c show ?thesis by simp
qed

text \<open>
  C7: the prompt of either mode is a function of the title, the subject and the description
  alone: two documents that agree on these three get identical prompt text, whatever else
  differs. The builders take no state and return none.
\<close>

theorem prompts_depend_only_on_title_subject_description:
  assumes "title f = title g" "subject f = subject g" "description f = description g"
  shows "summaryPrompt f = summaryPrompt g \<and> quizPrompt f = quizPrompt g"
  using assms by (simp add: summaryPrompt_def quizPrompt_def)

theorem prompts_depend_only_on_title_subject_description_witness:
  "title demo_doc = title (demo_doc\<lparr>doc_id := ''f9'', fileUrl := ''https://res.example/other.pdf'',
                                      createdBy := ''u7'', createdAt := 99\<rparr>)
   \<and> subject demo_doc = subject (demo_doc\<lparr>doc_id := ''f9'', fileUrl := ''https://res.example/other.pdf'',
                                      createdBy := ''u7'', createdAt := 99\<rparr>)
   \<and> description demo_doc = description (demo_doc\<lparr>doc_id := ''f9'', fileUrl := ''https://res.example/other.pdf'',
                                      createdBy := ''u7'', createdAt := 99\<rparr>)
   \<and> summaryPrompt demo_doc = summaryPrompt (demo_doc\<lparr>doc_id := ''f9'', fileUrl := ''https://res.example/other.pdf'',
                                      createdBy := ''u7'', createdAt := 99\<rparr>)
   \<and> quizPrompt demo_doc = quizPrompt (demo_doc\<lparr>doc_id := ''f9'', fileUrl := ''https://res.example/other.pdf'',
                                      createdBy := ''u7'', createdAt := 99\<rparr>)"
  using prompts_depend_only_on_title_subject_description
    [of demo_doc "demo_doc\<lparr>doc_id := ''f9'', fileUrl := ''https://res.example/other.pdf'',
                                      createdBy := ''u7'', createdAt := 99\<rparr>"]
  by simp

section \<open>Properties of \<^verbatim>\<open>uploadFile\<close>\<close>

lemma split_on_not_empty: "split_on sep s \<noteq> []"
  by (induction s) (auto split: list.splits)

lemma pop_defined: "xs \<noteq> [] \<Longrightarrow> \<exists>x. pop xs = Some x"
  by (induction xs rule: pop.induct) auto

lemma try_accepted:
  assumes "passes_validation req f ext"
  shows "uploadFile_try env req st =
    (case upload_outcome env of
       Inl e \<Rightarrow> (Inl e, st)
     | Inr (url, pid) \<Rightarrow>
        (if path f \<notin> disk st then (Inl (enoent (path f)), stored st url pid)
         else case create_outcome env of
           Inl e \<Rightarrow> (Inl e, (stored st url pid)\<lparr>disk := disk st - {path f}\<rparr>)
         | Inr (new_id, created) \<Rightarrow>
            (let st3 = (stored st url pid)\<lparr>disk := disk st - {path f},
                        files := files st @ [new_doc req ext url pid new_id created]\<rparr>
             in case populate_error env of
               Some e \<Rightarrow> (Inl e, st3)
             | None \<Rightarrow>
                (Inr \<lparr>status = 201, success = True,
                      message = Some ''File uploaded successfully'',
                      data = FileData (populate ''name email'' (users st)
                               (new_doc req ext url pid new_id created))\<rparr>, st3))))"
proof -
  from assms obtain part where
    a: "\<not> (falsy (body_title req) \<or> falsy (body_subject req))" "req_file req = Some f"
       "pop (split_on (CHR ''.'') (originalname f)) = Some part" "toLowerCase part = ext"
       "ext \<in> set allowedTypes"
    by (auto simp: passes_validation_def)
  show ?thesis
    unfolding uploadFile_try_def
    by (simp add: a Let_def unlinkSync_def stored_def new_doc_def
          split: sum.split prod.split option.split)
qed

lemma uploadFile_catch_status: "status (fst (uploadFile_catch req e s)) = 500"
  by (simp add: uploadFile_catch_def failure_def Let_def)

lemma uploadFile_catch_data: "data (fst (uploadFile_catch req e s)) = NoData"
  by (simp add: uploadFile_catch_def failure_def Let_def)

lemma not_validated:
  assumes "\<forall>f ext. \<not> passes_validation req f ext"
  shows "status (fst (uploadFile env req st)) \<noteq> 201 \<and> data (fst (uploadFile env req st)) = NoData"
proof (cases "falsy (body_title req) \<or> falsy (body_subject req)")
  case True
  then show ?thesis by (simp add: uploadFile_def uploadFile_try_def failure_def)
next
  case ok: False
  show ?thesis
  proof (cases "req_file req")
    case None
    with ok show ?thesis by (simp add: uploadFile_def uploadFile_try_def failure_def)
  next
    case (Some f)
    obtain part where part: "pop (split_on (CHR ''.'') (originalname f)) = Some part"
      using pop_defined [OF split_on_not_empty] by blast
    with assms ok Some have bad: "toLowerCase part \<notin> set allowedTypes"
      by (auto simp: passes_validation_def)
    show ?thesis
    proof (cases "path f \<in> disk st")
      case True
      with ok Some part bad show ?thesis
        by (simp add: uploadFile_def uploadFile_try_def unlinkSync_def failure_def)
    next
      case False
      with ok Some part bad have "uploadFile env req st = uploadFile_catch req (enoent (path f)) st"
        by (simp add: uploadFile_def uploadFile_try_def unlinkSync_def)
      then show ?thesis by (simp add: uploadFile_catch_status uploadFile_catch_data)
    qed
  qed
qed

lemma allowed_normalised:
  "ext \<in> set allowedTypes \<Longrightarrow>
   (if ext = ''pptx'' then ''ppt'' else ext) \<in> {''pdf'', ''docx'', ''ppt''}"
  by (auto simp: allowedTypes_def)

text \<open>
  Whenever the title or the subject is missing, \<^verbatim>\<open>uploadFile\<close> answers 400 and leaves the
  state as it was, a staged file included.
\<close>

lemma uploadFile_missing_field:
  "falsy (body_title req) \<or> falsy (body_subject req) \<Longrightarrow>
   uploadFile env req st = (failure 400 ''Please provide title and subject'', st)"
  by (simp add: uploadFile_def uploadFile_try_def)

text \<open>
  C2 at a failing input: the title is missing and a file is staged. The request is rejected
  with status 400 and the state is unchanged, so the staged file is still on disk; the branch
  for a disallowed type and the \<^verbatim>\<open>catch\<close> block both delete it.
\<close>

theorem uploadFile_missing_title_leaves_staged_file:
  "uploadFile (demo_env (Inl [])) (demo_request\<lparr>body_title := None\<rparr>) demo_server
     = (failure 400 ''Please provide title and subject'', demo_server)
   \<and> req_file (demo_request\<lparr>body_title := None\<rparr>)
       = Some \<lparr>originalname = ''Week1.PPTX'', path = ''uploads/2-slides.pptx''\<rparr>
   \<and> ''uploads/2-slides.pptx'' \<in> disk demo_server"
  by (simp add: uploadFile_def uploadFile_try_def falsy_def demo_request_def demo_server_def)

text \<open>
  C8 as the specification words it does not hold: the URL of the new document is the
  \<^verbatim>\<open>secure_url\<close> of the storage service's answer, and \<^verbatim>\<open>uploadFile\<close> does not look at
  it. When the storage service answers with an empty URL, the upload is answered with status
  201 and the one document it creates has an empty \<^verbatim>\<open>fileUrl\<close>.
\<close>

theorem uploadFile_empty_url_counterexample:
  "status (fst (uploadFile ((demo_env (Inl []))\<lparr>upload_outcome := Inr ([], ''studygeni/slides'')\<rparr>)
                 demo_request demo_server)) = 201
   \<and> files (snd (uploadFile ((demo_env (Inl []))\<lparr>upload_outcome := Inr ([], ''studygeni/slides'')\<rparr>)
                 demo_request demo_server))
       = files demo_server @ [new_doc demo_request ''pptx'' [] ''studygeni/slides'' ''f2'' 20]
   \<and> fileUrl (new_doc demo_request ''pptx'' [] ''studygeni/slides'' ''f2'' 20) = []"
  by code_simp

text \<open>
  C8 (amended): every upload answered with status 201 has passed validation and has added
  exactly one document; its \<^verbatim>\<open>fileType\<close> is the lower-cased last dot-segment of the file
  name with \<^verbatim>\<open>pptx\<close> turned into \<^verbatim>\<open>ppt\<close>, one of \<^verbatim>\<open>pdf\<close>, \<^verbatim>\<open>docx\<close> and \<^verbatim>\<open>ppt\<close>; its
  \<^verbatim>\<open>fileUrl\<close> is the URL that the storage service returned, so it is non-empty whenever
  the storage service returns a non-empty URL.
\<close>

theorem uploadFile_success_creates_one_document:
  assumes "uploadFile env req st = (res, st')" "status res = 201"
  shows "\<exists>f ext d url pid. passes_validation req f ext
           \<and> upload_outcome env = Inr (url, pid)
           \<and> files st' = files st @ [d]
           \<and> fileType d = (if ext = ''pptx'' then ''ppt'' else ext)
           \<and> fileType d \<in> {''pdf'', ''docx'', ''ppt''}
           \<and> fileUrl d = url \<and> (url \<noteq> [] \<longrightarrow> fileUrl d \<noteq> [])"
proof -
  from assms(1,2) not_validated [of req env st]
  obtain f ext where v: "passes_validation req f ext" by auto
  then have ext: "ext \<in> set allowedTypes" by (simp add: passes_validation_def)
  from assms(1) have t: "uploadFile_try env req st = (Inr res, st')
      \<or> (\<exists>e s. uploadFile_try env req st = (Inl e, s) \<and> (res, st') = uploadFile_catch req e s)"
    by (auto simp: uploadFile_def split: prod.splits sum.splits)
  have "\<not> (\<exists>e s. uploadFile_try env req st = (Inl e, s) \<and> (res, st') = uploadFile_catch req e s)"
  proof
    assume "\<exists>e s. uploadFile_try env req st = (Inl e, s) \<and> (res, st') = uploadFile_catch req e s"
    then obtain e s where "(res, st') = uploadFile_catch req e s" by blast
    then have "res = fst (uploadFile_catch req e s)" by (metis fst_conv)
    with assms(2) show False by (simp add: uploadFile_catch_status)
  qed
  with t have r: "uploadFile_try env req st = (Inr res, st')" by blast
  from r obtain url pid new_id created where
    u: "upload_outcome env = Inr (url, pid)"
    and fs: "files st' = files st @ [new_doc req ext url pid new_id created]"
    unfolding try_accepted [OF v]
    by (auto simp: Let_def stored_def split: if_splits sum.splits option.splits prod.splits)
  have "fileType (new_doc req ext url pid new_id created) = (if ext = ''pptx'' then ''ppt'' else ext)"
    "fileUrl (new_doc req ext url pid new_id created) = url"
    by (simp_all add: new_doc_def)
  with u fs v allowed_normalised [OF ext] show ?thesis by metis
qed

theorem uploadFile_success_creates_one_document_witness:
  "status (fst (uploadFile (demo_env (Inl [])) demo_request demo_server)) = 201
   \<and> (\<exists>f ext d url pid. passes_validation demo_request f ext
         \<and> upload_outcome (demo_env (Inl [])) = Inr (url, pid)
         \<and> files (snd (uploadFile (demo_env (Inl [])) demo_request demo_server))
             = files demo_server @ [d]
         \<and> fileType d = (if ext = ''pptx'' then ''ppt'' else ext)
         \<and> fileType d \<in> {''pdf'', ''docx'', ''ppt''}
         \<and> fileUrl d = url \<and> (url \<noteq> [] \<longrightarrow> fileUrl d \<noteq> []))
   \<and> files (snd (uploadFile (demo_env (Inl [])) demo_request demo_server))
       = files demo_server
         @ [new_doc demo_request ''pptx'' ''https://res.example/slides.pptx'' ''studygeni/slides'' ''f2'' 20]
   \<and> fileType (new_doc demo_request ''pptx'' ''https://res.example/slides.pptx'' ''studygeni/slides'' ''f2'' 20)
       = ''ppt''
   \<and> fileUrl (new_doc demo_request ''pptx'' ''https://res.example/slides.pptx'' ''studygeni/slides'' ''f2'' 20)
       = ''https://res.example/slides.pptx''"
proof -
  have h1: "uploadFile (demo_env (Inl [])) demo_request demo_server
      = (fst (uploadFile (demo_env (Inl [])) demo_request demo_server),
         snd (uploadFile (demo_env (Inl [])) demo_request demo_server))"
    by simp
  have h2: "status (fst (uploadFile (demo_env (Inl [])) demo_request demo_server)) = 201"
    by code_simp
  have c: "files (snd (uploadFile (demo_env (Inl [])) demo_request demo_server))
       = files demo_server
         @ [new_doc demo_request ''pptx'' ''https://res.example/slides.pptx'' ''studygeni/slides'' ''f2'' 20]"
    by code_simp
  have d: "fileType (new_doc demo_request ''pptx'' ''https://res.example/slides.pptx'' ''studygeni/slides'' ''f2'' 20)
       = ''ppt''"
    "fileUrl (new_doc demo_request ''pptx'' ''https://res.example/slides.pptx'' ''studygeni/slides'' ''f2'' 20)
       = ''https://res.example/slides.pptx''"
    by (simp_all add: new_doc_def)
  from uploadFile_success_creates_one_document [OF h1 h2] h2 c d show ?thesis by blast
qed

text \<open>
  A run that contradicts C3 as stated: the storage upload succeeds and the record write fails.
  The caller receives the message of the database error itself, and the uploaded object stays
  in remote storage although no document refers to it.
\<close>

theorem uploadFile_record_write_failure_counterexample:
  "fst (uploadFile ((demo_env (Inl []))\<lparr>create_outcome := Inl ''MongoNetworkError: connection timed out''\<rparr>)
          demo_request demo_server)
     = failure 500 ''MongoNetworkError: connection timed out''
   \<and> files (snd (uploadFile ((demo_env (Inl []))\<lparr>create_outcome := Inl ''MongoNetworkError: connection timed out''\<rparr>)
          demo_request demo_server)) = files demo_server
   \<and> cloud (snd (uploadFile ((demo_env (Inl []))\<lparr>create_outcome := Inl ''MongoNetworkError: connection timed out''\<rparr>)
          demo_request demo_server))
       = cloud demo_server @ [(''studygeni/slides'', ''https://res.example/slides.pptx'')]
   \<and> ''studygeni/slides'' \<notin> publicId ` set (files demo_server)"
  by code_simp

text \<open>
  C3 (amended): for every upload request that passes validation and whose staged file is on
  disk, if the storage upload fails, or succeeds and the record write fails, then no document
  is created, the staged file is no longer on disk, and the caller receives status 500 with
  the message of the error itself; remote storage is unchanged when the upload failed, and
  keeps the uploaded object when the record write failed.
\<close>

theorem uploadFile_failure_after_validation:
  assumes "passes_validation req f ext" "path f \<in> disk st"
    and "upload_outcome env = Inl err
         \<or> (\<exists>url pid. upload_outcome env = Inr (url, pid) \<and> create_outcome env = Inl err)"
  shows "fst (uploadFile env req st) = failure 500 err
       \<and> files (snd (uploadFile env req st)) = files st
       \<and> path f \<notin> disk (snd (uploadFile env req st))
       \<and> (upload_outcome env = Inl err \<longrightarrow> cloud (snd (uploadFile env req st)) = cloud st)
       \<and> (\<forall>url pid. upload_outcome env = Inr (url, pid) \<longrightarrow>
            cloud (snd (uploadFile env req st)) = cloud st @ [(pid, url)])"
proof -
  from assms(1) have f: "req_file req = Some f" by (simp add: passes_validation_def)
  from assms(3) show ?thesis
  proof
    assume u: "upload_outcome env = Inl err"
    then have "uploadFile env req st = uploadFile_catch req err st"
      by (simp add: uploadFile_def try_accepted [OF assms(1)])
    with u f assms(2) show ?thesis
      by (simp add: uploadFile_catch_def existsSync_def unlinkSync_def console_error_def)
  next
    assume "\<exists>url pid. upload_outcome env = Inr (url, pid) \<and> create_outcome env = Inl err"
    then obtain url pid where u: "upload_outcome env = Inr (url, pid)"
      and c: "create_outcome env = Inl err" by blast
    then have "uploadFile env req st
        = uploadFile_catch req err ((stored st url pid)\<lparr>disk := disk st - {path f}\<rparr>)"
      using assms(2) by (simp add: uploadFile_def try_accepted [OF assms(1)])
    with u f show ?thesis
      by (simp add: uploadFile_catch_def existsSync_def console_error_def stored_def)
  qed
qed

theorem uploadFile_failure_after_validation_witness:
  "passes_validation demo_request \<lparr>originalname = ''Week1.PPTX'', path = ''uploads/2-slides.pptx''\<rparr> ''pptx''
   \<and> path \<lparr>originalname = ''Week1.PPTX'', path = ''uploads/2-slides.pptx''\<rparr> \<in> disk demo_server
   \<and> upload_outcome ((demo_env (Inl []))\<lparr>create_outcome := Inl ''MongoNetworkError: connection timed out''\<rparr>)
       = Inr (''https://res.example/slides.pptx'', ''studygeni/slides'')
   \<and> create_outcome ((demo_env (Inl []))\<lparr>create_outcome := Inl ''MongoNetworkError: connection timed out''\<rparr>)
       = Inl ''MongoNetworkError: connection timed out''
   \<and> fst (uploadFile ((demo_env (Inl []))\<lparr>create_outcome := Inl ''MongoNetworkError: connection timed out''\<rparr>)
          demo_request demo_server)
       = failure 500 ''MongoNetworkError: connection timed out''
   \<and> files (snd (uploadFile ((demo_env (Inl []))\<lparr>create_outcome := Inl ''MongoNetworkError: connection timed out''\<rparr>)
          demo_request demo_server)) = files demo_server
   \<and> ''uploads/2-slides.pptx'' \<notin> disk (snd (uploadFile
          ((demo_env (Inl []))\<lparr>create_outcome := Inl ''MongoNetworkError: connection timed out''\<rparr>)
          demo_request demo_server))
   \<and> cloud (snd (uploadFile ((demo_env (Inl []))\<lparr>create_outcome := Inl ''MongoNetworkError: connection timed out''\<rparr>)
          demo_request demo_server))
       = cloud demo_server @ [(''studygeni/slides'', ''https://res.example/slides.pptx'')]"
proof -
  let ?f = "\<lparr>originalname = ''Week1.PPTX'', path = ''uploads/2-slides.pptx''\<rparr>"
  let ?env = "(demo_env (Inl []))\<lparr>create_outcome := Inl ''MongoNetworkError: connection timed out''\<rparr>"
  have h1: "passes_validation demo_request ?f ''pptx''" by code_simp
  have h2: "path ?f \<in> disk demo_server" by (simp add: demo_server_def)
  have u: "upload_outcome ?env = Inr (''https://res.example/slides.pptx'', ''studygeni/slides'')"
    and c: "create_outcome ?env = Inl ''MongoNetworkError: connection timed out''"
    by (simp_all add: demo_env_def)
  then have h3: "upload_outcome ?env = Inl ''MongoNetworkError: connection timed out''
         \<or> (\<exists>url pid. upload_outcome ?env = Inr (url, pid)
               \<and> create_outcome ?env = Inl ''MongoNetworkError: connection timed out'')"
    by blast
  from uploadFile_failure_after_validation [OF h1 h2 h3] h1 h2 u c show ?thesis by simp
qed

section \<open>Properties of the document reads\<close>

lemma project_fields:
  "fst ` set (project select u) \<subseteq> set (''_id'' # split_on (CHR '' '') select)"
  by (auto simp: project_def)

lemma populate_doc: "doc (populate select us d) = d"
  by (simp add: populate_def)

lemma populate_creator:
  "creator (populate select us d) = Some ow \<Longrightarrow>
   fst ` set ow \<subseteq> set (''_id'' # split_on (CHR '' '') select)"
  using project_fields by (auto simp: populate_def)

lemma select_read: "set (''_id'' # split_on (CHR '' '') ''name email role'')
    = {''_id'', ''name'', ''email'', ''role''}"
  by (simp add: insert_commute)

lemma select_create: "set (''_id'' # split_on (CHR '' '') ''name email'')
    = {''_id'', ''name'', ''email''}"
  by (simp add: insert_commute)

lemma sort_newest_first_sorted:
  "sorted_wrt (\<lambda>a b. createdAt (doc b) \<le> createdAt (doc a)) (sort_newest_first ps)"
proof -
  have "sorted (map (\<lambda>p. - int (createdAt (doc p))) (sort_newest_first ps))"
    unfolding sort_newest_first_def by (rule sorted_sort_key)
  then show ?thesis by (simp add: sorted_map)
qed

lemma uploadFile_data:
  assumes "data (fst (uploadFile env req st)) = FileData p"
  shows "\<exists>d. p = populate ''name email'' (users st) d"
proof (cases "\<exists>f ext. passes_validation req f ext")
  case True
  then obtain f ext where v: "passes_validation req f ext" by blast
  from assms uploadFile_catch_data show ?thesis
    unfolding uploadFile_def try_accepted [OF v]
    by (auto simp: Let_def split: sum.splits prod.splits if_splits option.splits)
next
  case False
  with assms not_validated [of req env st] show ?thesis by simp
qed

lemma populate_owner:
  assumes "creator (populate select us d) = Some ow"
  shows "\<exists>u\<in>set us. map_of u ''_id'' = Some (createdBy d) \<and> set ow \<subseteq> set u"
proof -
  from assms obtain u where f: "find (\<lambda>u. map_of u ''_id'' = Some (createdBy d)) us = Some u"
    and ow: "ow = project select u"
    by (auto simp: populate_def)
  from f have "u \<in> set us" "map_of u ''_id'' = Some (createdBy d)"
    by (auto simp: find_Some_iff)
  moreover from ow have "set ow \<subseteq> set u" by (auto simp: project_def)
  ultimately show ?thesis by blast
qed

text \<open>
  A run that contradicts C5 as stated: the document returned by \<^verbatim>\<open>getFile\<close> carries the
  owner's role besides the identifier, the name and the email.
\<close>

theorem getFile_exposes_role_counterexample:
  "data (fst (getFile (demo_env (Inl [])) ''f1'' demo_server))
     = FileData \<lparr>doc = demo_doc,
                  creator = Some [(''_id'', ''u1''), (''name'', ''Ada''),
                                  (''email'', ''ada@school.example''), (''role'', ''teacher'')]\<rparr>"
  by code_simp

text \<open>
  C5 (amended): \<^verbatim>\<open>getAllFiles\<close> returns all documents ordered newest first by creation
  time. The owner information of a document returned by \<^verbatim>\<open>getAllFiles\<close> or \<^verbatim>\<open>getFile\<close>
  consists of fields of the user whose identifier is the document's \<^verbatim>\<open>createdBy\<close>, and
  only of those named \<^verbatim>\<open>_id\<close>, \<^verbatim>\<open>name\<close>, \<^verbatim>\<open>email\<close> and \<^verbatim>\<open>role\<close>; that of a document
  returned by \<^verbatim>\<open>uploadFile\<close> consists of fields of that user named \<^verbatim>\<open>_id\<close>, \<^verbatim>\<open>name\<close>
  and \<^verbatim>\<open>email\<close>.
\<close>

theorem documents_newest_first_with_owner_display_fields:
  "(find_error env = None \<longrightarrow>
      (\<exists>found. fst (getAllFiles env st) = ok (FileList (length found) found)
         \<and> mset (map doc found) = mset (files st)
         \<and> sorted_wrt (\<lambda>a b. createdAt (doc b) \<le> createdAt (doc a)) found
         \<and> (\<forall>p\<in>set found. \<forall>ow. creator p = Some ow \<longrightarrow>
               fst ` set ow \<subseteq> {''_id'', ''name'', ''email'', ''role''}
               \<and> (\<exists>u\<in>set (users st). map_of u ''_id'' = Some (createdBy (doc p))
                     \<and> set ow \<subseteq> set u))))
   \<and> (\<forall>p ow. data (fst (getFile env i st)) = FileData p \<and> creator p = Some ow \<longrightarrow>
         fst ` set ow \<subseteq> {''_id'', ''name'', ''email'', ''role''}
         \<and> (\<exists>u\<in>set (users st). map_of u ''_id'' = Some (createdBy (doc p)) \<and> set ow \<subseteq> set u))
   \<and> (\<forall>p ow. data (fst (uploadFile env req st)) = FileData p \<and> creator p = Some ow \<longrightarrow>
         fst ` set ow \<subseteq> {''_id'', ''name'', ''email''}
         \<and> (\<exists>u\<in>set (users st). map_of u ''_id'' = Some (createdBy (doc p)) \<and> set ow \<subseteq> set u))"
proof (intro conjI impI allI)
  assume e: "find_error env = None"
  let ?found = "sort_newest_first (map (populate ''name email role'' (users st)) (files st))"
  have "fst (getAllFiles env st) = ok (FileList (length ?found) ?found)"
    using e by (simp add: getAllFiles_def Let_def)
  moreover have "mset (map doc ?found) = mset (files st)"
    by (simp add: sort_newest_first_def multiset.map_comp comp_def populate_doc)
  moreover have "sorted_wrt (\<lambda>a b. createdAt (doc b) \<le> createdAt (doc a)) ?found"
    by (rule sort_newest_first_sorted)
  moreover have "\<forall>p\<in>set ?found. \<forall>ow. creator p = Some ow \<longrightarrow>
               fst ` set ow \<subseteq> {''_id'', ''name'', ''email'', ''role''}
               \<and> (\<exists>u\<in>set (users st). map_of u ''_id'' = Some (createdBy (doc p))
                     \<and> set ow \<subseteq> set u)"
  proof (intro ballI allI impI)
    fix p ow assume p: "p \<in> set ?found" and c: "creator p = Some ow"
    from p obtain d where d: "p = populate ''name email role'' (users st) d"
      by (auto simp: sort_newest_first_def)
    from c d populate_creator [of "''name email role''" "users st" d ow] select_read
    have "fst ` set ow \<subseteq> {''_id'', ''name'', ''email'', ''role''}" by simp
    moreover from c d populate_owner [of "''name email role''" "users st" d ow]
    have "\<exists>u\<in>set (users st). map_of u ''_id'' = Some (createdBy (doc p)) \<and> set ow \<subseteq> set u"
      by (simp add: populate_doc)
    ultimately show "fst ` set ow \<subseteq> {''_id'', ''name'', ''email'', ''role''}
               \<and> (\<exists>u\<in>set (users st). map_of u ''_id'' = Some (createdBy (doc p))
                     \<and> set ow \<subseteq> set u)" by blast
  qed
  ultimately show "\<exists>found. fst (getAllFiles env st) = ok (FileList (length found) found)
         \<and> mset (map doc found) = mset (files st)
         \<and> sorted_wrt (\<lambda>a b. createdAt (doc b) \<le> createdAt (doc a)) found
         \<and> (\<forall>p\<in>set found. \<forall>ow. creator p = Some ow \<longrightarrow>
               fst ` set ow \<subseteq> {''_id'', ''name'', ''email'', ''role''}
               \<and> (\<exists>u\<in>set (users st). map_of u ''_id'' = Some (createdBy (doc p))
                     \<and> set ow \<subseteq> set u))"
    by blast
next
  fix p ow
  assume a: "data (fst (getFile env i st)) = FileData p \<and> creator p = Some ow"
  then obtain d where d: "p = populate ''name email role'' (users st) d"
    by (auto simp: getFile_def failure_def ok_def console_error_def split: option.splits)
  from a d populate_creator [of "''name email role''" "users st" d ow] select_read
  show "fst ` set ow \<subseteq> {''_id'', ''name'', ''email'', ''role''}" by simp
  from a d populate_owner [of "''name email role''" "users st" d ow]
  show "\<exists>u\<in>set (users st). map_of u ''_id'' = Some (createdBy (doc p)) \<and> set ow \<subseteq> set u"
    by (simp add: populate_doc)
next
  fix p ow
  assume a: "data (fst (uploadFile env req st)) = FileData p \<and> creator p = Some ow"
  then obtain d where d: "p = populate ''name email'' (users st) d" using uploadFile_data by blast
  from a d populate_creator [of "''name email''" "users st" d ow] select_create
  show "fst ` set ow \<subseteq> {''_id'', ''name'', ''email''}" by simp
  from a d populate_owner [of "''name email''" "users st" d ow]
  show "\<exists>u\<in>set (users st). map_of u ''_id'' = Some (createdBy (doc p)) \<and> set ow \<subseteq> set u"
    by (simp add: populate_doc)
qed

theorem documents_newest_first_with_owner_display_fields_witness:
  "find_error (demo_env (Inl [])) = None
   \<and> files library_server = [demo_doc, newest_doc, middle_doc]
   \<and> fst (getAllFiles (demo_env (Inl [])) library_server) = ok (FileList 3 library_listing)
   \<and> map (\<lambda>p. createdAt (doc p)) library_listing = [30, 20, 10]
   \<and> mset (map doc library_listing) = mset (files library_server)
   \<and> sorted_wrt (\<lambda>a b. createdAt (doc b) \<le> createdAt (doc a)) library_listing
   \<and> fst ` set bob_shown \<subseteq> {''_id'', ''name'', ''email'', ''role''}
   \<and> fst ` set ada_shown \<subseteq> {''_id'', ''name'', ''email'', ''role''}
   \<and> set bob_shown \<subseteq> set second_user
   \<and> set ada_shown \<subseteq> set demo_user
   \<and> data (fst (getFile (demo_env (Inl [])) ''f3'' library_server))
       = FileData \<lparr>doc = newest_doc, creator = Some bob_shown\<rparr>
   \<and> data (fst (uploadFile (demo_env (Inl [])) (demo_request\<lparr>req_user := ''u2''\<rparr>) library_server))
       = FileData \<lparr>doc = new_doc (demo_request\<lparr>req_user := ''u2''\<rparr>) ''pptx''
                           ''https://res.example/slides.pptx'' ''studygeni/slides'' ''f2'' 20,
                    creator = Some [(''_id'', ''u2''), (''name'', ''Bob''),
                                    (''email'', ''bob@school.example'')]\<rparr>
   \<and> fst ` set [(''_id'', ''u2''), (''name'', ''Bob''), (''email'', ''bob@school.example'')]
       \<subseteq> {''_id'', ''name'', ''email''}"
proof -
  let ?made = "[(''_id'', ''u2''), (''name'', ''Bob''), (''email'', ''bob@school.example'')]"
  let ?req = "demo_request\<lparr>req_user := ''u2''\<rparr>"
  let ?new = "\<lparr>doc = new_doc ?req ''pptx'' ''https://res.example/slides.pptx''
                    ''studygeni/slides'' ''f2'' 20, creator = Some ?made\<rparr>"
  have e: "find_error (demo_env (Inl [])) = None" by (simp add: demo_env_def)
  have fs: "files library_server = [demo_doc, newest_doc, middle_doc]"
    by (simp add: library_server_def)
  have run: "fst (getAllFiles (demo_env (Inl [])) library_server) = ok (FileList 3 library_listing)"
    by code_simp
  have times: "map (\<lambda>p. createdAt (doc p)) library_listing = [30, 20, 10]"
    by (simp add: library_listing_def newest_doc_def middle_doc_def demo_doc_def)
  have g: "data (fst (getFile (demo_env (Inl [])) ''f3'' library_server))
       = FileData \<lparr>doc = newest_doc, creator = Some bob_shown\<rparr>"
    by code_simp
  have u: "data (fst (uploadFile (demo_env (Inl [])) ?req library_server)) = FileData ?new"
    by code_simp
  have own: "set bob_shown \<subseteq> set second_user" "set ada_shown \<subseteq> set demo_user"
    by (simp_all add: bob_shown_def ada_shown_def second_user_def demo_user_def)
  note t = documents_newest_first_with_owner_display_fields [of "demo_env (Inl [])" library_server "''f3''" ?req]
  from t [THEN conjunct1, rule_format, OF e] obtain found where
    f1: "fst (getAllFiles (demo_env (Inl [])) library_server) = ok (FileList (length found) found)"
    and f2: "mset (map doc found) = mset (files library_server)"
    and f3: "sorted_wrt (\<lambda>a b. createdAt (doc b) \<le> createdAt (doc a)) found"
    and f4: "\<forall>p\<in>set found. \<forall>ow. creator p = Some ow \<longrightarrow>
               fst ` set ow \<subseteq> {''_id'', ''name'', ''email'', ''role''}
               \<and> (\<exists>u\<in>set (users library_server). map_of u ''_id'' = Some (createdBy (doc p))
                     \<and> set ow \<subseteq> set u)"
    by blast
  from f1 run have found: "found = library_listing" by (simp add: ok_def)
  have b: "fst ` set bob_shown \<subseteq> {''_id'', ''name'', ''email'', ''role''}"
    using f4 [unfolded found, rule_format, of "\<lparr>doc = newest_doc, creator = Some bob_shown\<rparr>" bob_shown]
    by (simp add: library_listing_def)
  have a: "fst ` set ada_shown \<subseteq> {''_id'', ''name'', ''email'', ''role''}"
    using f4 [unfolded found, rule_format, of "\<lparr>doc = demo_doc, creator = Some ada_shown\<rparr>" ada_shown]
    by (simp add: library_listing_def)
  from t [THEN conjunct2, THEN conjunct2, rule_format, of ?new ?made] u
  have m: "fst ` set ?made \<subseteq> {''_id'', ''name'', ''email''}"
    by simp
  from e fs run times f2 [unfolded found] f3 [unfolded found] b a own g u m
  show ?thesis by simp
qed

end
